theory Spec2Isabelle
  imports Main
begin

section \<open>The store of link nodes\<close>

text \<open>
  A \<^verbatim>\<open>list_element_base\<close> object is identified by its address. A pointer is an
  optional address, \<open>None\<close> being \<^verbatim>\<open>nullptr\<close>. The two fields \<^verbatim>\<open>prev\<close> and
  \<^verbatim>\<open>next\<close> of all objects form the store; every member function takes the store
  and the address of \<^verbatim>\<open>this\<close> and returns the updated store.
\<close>

type_synonym addr = nat
type_synonym ptr = "addr option"

record heap =
  prev :: "addr \<Rightarrow> ptr"
  "next" :: "addr \<Rightarrow> ptr"

text \<open>
  There is no error channel in the source: a failed \<^verbatim>\<open>assert\<close> and a dereferenced
  null pointer are the two ways an operation can go wrong, and both are values here.
\<close>

datatype error = AssertionFailed | NullDereference

type_synonym 'a result = "error + 'a"

definition deref :: "ptr \<Rightarrow> (addr \<Rightarrow> 'a result) \<Rightarrow> 'a result" where
  "deref p k = (case p of None \<Rightarrow> Inl NullDereference | Some a \<Rightarrow> k a)"

definition set_prev :: "heap \<Rightarrow> addr \<Rightarrow> ptr \<Rightarrow> heap" where
  "set_prev h a v = h\<lparr>prev := (prev h)(a := v)\<rparr>"

definition set_next :: "heap \<Rightarrow> addr \<Rightarrow> ptr \<Rightarrow> heap" where
  "set_next h a v = h\<lparr>next := (next h)(a := v)\<rparr>"


section \<open>Untyped ring operations (intrusive\_list.cpp)\<close>

text \<open>
  \<^verbatim>\<open>triswap(a, b, c)\<close> takes three references into one field of the store, at the
  objects \<open>a\<close>, \<open>b\<close> and \<open>c\<close>, which may alias:
  \<^verbatim>\<open>T copy = a; a = b; b = c; c = copy;\<close>
\<close>

definition triswap :: "(addr \<Rightarrow> ptr) \<Rightarrow> addr \<Rightarrow> addr \<Rightarrow> addr \<Rightarrow> (addr \<Rightarrow> ptr)" where
  "triswap f a b c =
     (let copy = f a;
          f1 = f(a := f b);
          f2 = f1(b := f1 c)
      in f2(c := copy))"

text \<open>
  \<^verbatim>\<open>assert(prev != nullptr); assert(next != nullptr);\<close>
  \<^verbatim>\<open>assert(prev != this); assert(next != this);\<close>
  \<^verbatim>\<open>prev->next = next; next->prev = prev; prev = nullptr; next = nullptr;\<close>
  Each statement reads the store the previous one left.
\<close>

definition unlink :: "heap \<Rightarrow> addr \<Rightarrow> heap result" where
  "unlink h this =
     (if prev h this = None then Inl AssertionFailed
      else if next h this = None then Inl AssertionFailed
      else if prev h this = Some this then Inl AssertionFailed
      else if next h this = Some this then Inl AssertionFailed
      else
        deref (prev h this) (\<lambda>p.
        let h1 = set_next h p (next h this) in
        deref (next h1 this) (\<lambda>n.
        let h2 = set_prev h1 n (prev h1 this);
            h3 = set_prev h2 this None;
            h4 = set_next h3 this None
        in Inr h4)))"

text \<open>
  \<^verbatim>\<open>assert((prev == nullptr) == (next == nullptr)); if (prev) unlink();\<close>
\<close>

definition try_unlink :: "heap \<Rightarrow> addr \<Rightarrow> heap result" where
  "try_unlink h this =
     (if (prev h this = None) \<noteq> (next h this = None) then Inl AssertionFailed
      else if prev h this \<noteq> None then unlink h this
      else Inr h)"

text \<open>
  \<^verbatim>\<open>auto* p = next;\<close>
  \<^verbatim>\<open>while (p != this) { auto* n = p->next; p->prev = nullptr; p->next = nullptr; p = n; }\<close>
  \<^verbatim>\<open>prev = this; next = this;\<close>
  The loop of \<^verbatim>\<open>clear\<close> follows \<^verbatim>\<open>next\<close> until it meets \<^verbatim>\<open>this\<close> again; on a
  store that is not a ring it need not stop, so its result is optional: \<open>None\<close> is
  a loop that runs forever.
\<close>

partial_function (option) clear_loop :: "addr \<Rightarrow> ptr \<Rightarrow> heap \<Rightarrow> heap result option" where
  "clear_loop this p h =
     (if p \<noteq> Some this then
        (case p of
           None \<Rightarrow> Some (Inl NullDereference)
         | Some a \<Rightarrow>
             clear_loop this (next h a) (set_next (set_prev h a None) a None))
      else Some (Inr h))"

definition clear :: "heap \<Rightarrow> addr \<Rightarrow> heap result option" where
  "clear h this =
     (case clear_loop this (next h this) h of
        None \<Rightarrow> None
      | Some (Inl e) \<Rightarrow> Some (Inl e)
      | Some (Inr h1) \<Rightarrow>
          Some (Inr (set_next (set_prev h1 this (Some this)) this (Some this))))"

text \<open>
  \<^verbatim>\<open>insert(obj)\<close>, named \<open>insert_base\<close> here:
  \<^verbatim>\<open>obj.next = this; obj.prev = prev; prev->next = &obj; prev = &obj;\<close>
\<close>

definition insert_base :: "heap \<Rightarrow> addr \<Rightarrow> addr \<Rightarrow> heap result" where
  "insert_base h this obj =
     (let h1 = set_next h obj (Some this);
          h2 = set_prev h1 obj (prev h1 this)
      in deref (prev h2 this) (\<lambda>p.
         let h3 = set_next h2 p (Some obj);
             h4 = set_prev h3 this (Some obj)
         in Inr h4))"

text \<open>
  \<^verbatim>\<open>if (&first == &last) return;\<close>
  \<^verbatim>\<open>triswap(prev->next, first.prev->next, last.prev->next);\<close>
  \<^verbatim>\<open>triswap(prev, last.prev, first.prev);\<close>
  The three references of the first call are the \<^verbatim>\<open>next\<close> fields of the nodes
  \<^verbatim>\<open>prev\<close>, \<^verbatim>\<open>first.prev\<close> and \<^verbatim>\<open>last.prev\<close>, read before any assignment; those of the
  second are the \<^verbatim>\<open>prev\<close> fields of \<^verbatim>\<open>this\<close>, \<^verbatim>\<open>last\<close> and \<^verbatim>\<open>first\<close>.
\<close>

definition splice :: "heap \<Rightarrow> addr \<Rightarrow> addr \<Rightarrow> addr \<Rightarrow> heap result" where
  "splice h this first last' =
     (if first = last' then Inr h
      else
        deref (prev h this) (\<lambda>a.
        deref (prev h first) (\<lambda>b.
        deref (prev h last') (\<lambda>c.
        let h1 = h\<lparr>next := triswap (next h) a b c\<rparr>;
            h2 = h1\<lparr>prev := triswap (prev h1) this last' first\<rparr>
        in Inr h2))))"


section \<open>Elements, iterators and the list (intrusive\_list.h)\<close>

text \<open>
  An element is addressed by its embedded link node: \<^verbatim>\<open>to_base\<close> and \<^verbatim>\<open>from_base\<close>
  are static casts, the identity on addresses. An iterator holds a pointer
  \<^verbatim>\<open>current\<close>; a list is addressed by its sentinel \<^verbatim>\<open>fake\<close>. The members \<^verbatim>\<open>begin\<close>,
  \<^verbatim>\<open>end\<close>, \<^verbatim>\<open>empty\<close>, \<^verbatim>\<open>front\<close>, \<^verbatim>\<open>back\<close>, \<^verbatim>\<open>clear\<close>, \<^verbatim>\<open>insert\<close> and \<^verbatim>\<open>splice\<close> of the list carry
  the prefix \<open>list_\<close>; \<open>iter_inc\<close>, \<open>iter_dec\<close> and \<open>iter_deref\<close> are the iterator's
  \<^verbatim>\<open>++\<close>, \<^verbatim>\<open>--\<close> and \<^verbatim>\<open>*\<close>.
\<close>

type_synonym iterator = ptr

definition to_base :: "addr \<Rightarrow> addr" where
  "to_base obj = obj"

definition from_base :: "addr \<Rightarrow> addr" where
  "from_base base = base"

definition list_element_ctor :: "heap \<Rightarrow> addr \<Rightarrow> heap" where
  "list_element_ctor h this = set_next (set_prev h this None) this None"

definition list_element_dtor :: "heap \<Rightarrow> addr \<Rightarrow> heap result" where
  "list_element_dtor h this = try_unlink h this"

definition iter_deref :: "iterator \<Rightarrow> addr result" where
  "iter_deref it = deref it (\<lambda>c. Inr (from_base c))"

definition iter_inc :: "heap \<Rightarrow> iterator \<Rightarrow> iterator result" where
  "iter_inc h it = deref it (\<lambda>c. Inr (next h c))"

definition iter_dec :: "heap \<Rightarrow> iterator \<Rightarrow> iterator result" where
  "iter_dec h it = deref it (\<lambda>c. Inr (prev h c))"

definition list_ctor :: "heap \<Rightarrow> addr \<Rightarrow> heap" where
  "list_ctor h fake = set_next (set_prev h fake (Some fake)) fake (Some fake)"

definition list_begin :: "heap \<Rightarrow> addr \<Rightarrow> iterator" where
  "list_begin h fake = next h fake"

definition list_end :: "addr \<Rightarrow> iterator" where
  "list_end fake = Some fake"

definition list_empty :: "heap \<Rightarrow> addr \<Rightarrow> bool" where
  "list_empty h fake = (prev h fake = Some fake)"

definition list_clear :: "heap \<Rightarrow> addr \<Rightarrow> heap result option" where
  "list_clear h fake = clear h fake"

definition list_dtor :: "heap \<Rightarrow> addr \<Rightarrow> heap result option" where
  "list_dtor h fake = clear h fake"

definition push_back :: "heap \<Rightarrow> addr \<Rightarrow> addr \<Rightarrow> heap result" where
  "push_back h fake obj = insert_base h fake (to_base obj)"

definition pop_back :: "heap \<Rightarrow> addr \<Rightarrow> heap result" where
  "pop_back h fake = deref (prev h fake) (\<lambda>p. unlink h p)"

definition list_back :: "heap \<Rightarrow> addr \<Rightarrow> addr result" where
  "list_back h fake = deref (prev h fake) (\<lambda>p. Inr (from_base p))"

definition push_front :: "heap \<Rightarrow> addr \<Rightarrow> addr \<Rightarrow> heap result" where
  "push_front h fake obj = deref (next h fake) (\<lambda>n. insert_base h n (to_base obj))"

definition pop_front :: "heap \<Rightarrow> addr \<Rightarrow> heap result" where
  "pop_front h fake = deref (next h fake) (\<lambda>n. unlink h n)"

definition list_front :: "heap \<Rightarrow> addr \<Rightarrow> addr result" where
  "list_front h fake = deref (next h fake) (\<lambda>n. Inr (from_base n))"

definition list_insert :: "heap \<Rightarrow> iterator \<Rightarrow> addr \<Rightarrow> (heap \<times> iterator) result" where
  "list_insert h pos obj =
     (let base = to_base obj in
      deref pos (\<lambda>c.
      case insert_base h c base of
        Inl e \<Rightarrow> Inl e
      | Inr h1 \<Rightarrow> Inr (h1, Some base)))"

definition erase :: "heap \<Rightarrow> iterator \<Rightarrow> (heap \<times> iterator) result" where
  "erase h pos =
     deref pos (\<lambda>c.
     let nxt = next h c in
     case unlink h c of
       Inl e \<Rightarrow> Inl e
     | Inr h1 \<Rightarrow> Inr (h1, nxt))"

text \<open>The list argument of \<^verbatim>\<open>list::splice\<close> has no name in the source: it is not read.\<close>

definition list_splice :: "heap \<Rightarrow> iterator \<Rightarrow> addr \<Rightarrow> iterator \<Rightarrow> iterator \<Rightarrow> heap result" where
  "list_splice h pos other first last' =
     deref pos (\<lambda>c. deref first (\<lambda>f. deref last' (\<lambda>l. splice h c f l)))"

definition list_move_ctor :: "heap \<Rightarrow> addr \<Rightarrow> addr \<Rightarrow> heap result" where
  "list_move_ctor h fake other =
     (let h1 = list_ctor h fake
      in list_splice h1 (list_end fake) other (list_begin h1 other) (list_end other))"

definition list_move_assign :: "heap \<Rightarrow> addr \<Rightarrow> addr \<Rightarrow> heap result option" where
  "list_move_assign h fake other =
     (case clear h fake of
        None \<Rightarrow> None
      | Some (Inl e) \<Rightarrow> Some (Inl e)
      | Some (Inr h1) \<Rightarrow>
          Some (list_splice h1 (list_end fake) other (list_begin h1 other) (list_end other)))"


section \<open>Rings and the node invariant\<close>

text \<open>
  \<open>dlinks h zs\<close>: consecutive members of \<open>zs\<close> are linked to each other in both
  directions. A ring with sentinel \<open>s\<close> and members \<open>xs\<close>, in order, is such a chain
  from \<open>s\<close> through \<open>xs\<close> back to \<open>s\<close>, without repetition.
\<close>

fun dlinks :: "heap \<Rightarrow> addr list \<Rightarrow> bool" where
  "dlinks h [] = True"
| "dlinks h [x] = True"
| "dlinks h (x # y # zs) = (next h x = Some y \<and> prev h y = Some x \<and> dlinks h (y # zs))"

definition ring :: "heap \<Rightarrow> addr \<Rightarrow> addr list \<Rightarrow> bool" where
  "ring h s xs = (distinct (s # xs) \<and> dlinks h (s # xs @ [s]))"

definition unlinked :: "heap \<Rightarrow> addr \<Rightarrow> bool" where
  "unlinked h n = (prev h n = None \<and> next h n = None)"

definition linked :: "heap \<Rightarrow> addr \<Rightarrow> bool" where
  "linked h n =
     (case (prev h n, next h n) of
        (Some p, Some q) \<Rightarrow> next h p = Some n \<and> prev h q = Some n
      | _ \<Rightarrow> False)"

definition node_ok :: "heap \<Rightarrow> addr \<Rightarrow> bool" where
  "node_ok h n = (unlinked h n \<or> linked h n)"

definition inv :: "addr set \<Rightarrow> heap \<Rightarrow> bool" where
  "inv S h = (\<forall>n\<in>S. node_ok h n)"


text \<open>The store after the loop of \<^verbatim>\<open>clear\<close> has reset the nodes \<open>xs\<close>.\<close>

definition cleared :: "heap \<Rightarrow> addr list \<Rightarrow> heap" where
  "cleared h xs = fold (\<lambda>a h. set_next (set_prev h a None) a None) xs h"


section \<open>The reference for splice\<close>

text \<open>
  The reference of the spec for \<^verbatim>\<open>splice\<close>: erase the elements of the range one by one,
  in order, and insert each immediately before \<open>pos\<close>.
\<close>

fun splice_by_moves :: "heap \<Rightarrow> iterator \<Rightarrow> addr list \<Rightarrow> heap result" where
  "splice_by_moves h pos [] = Inr h"
| "splice_by_moves h pos (e # es) =
     (case erase h (Some e) of
        Inl err \<Rightarrow> Inl err
      | Inr (h1, _) \<Rightarrow>
          (case list_insert h1 pos e of
             Inl err \<Rightarrow> Inl err
           | Inr (h2, _) \<Rightarrow> splice_by_moves h2 pos es))"


section \<open>Example stores\<close>

definition heap_null :: heap where
  "heap_null = \<lparr>prev = (\<lambda>_. None), next = (\<lambda>_. None)\<rparr>"

text \<open>The list with sentinel 0 holding the elements 1, 2, 3 in this order.\<close>

definition heap_abc :: heap where
  "heap_abc =
     \<lparr>prev = (\<lambda>_. None)(0 := Some 3, 1 := Some 0, 2 := Some 1, 3 := Some 2),
      next = (\<lambda>_. None)(0 := Some 1, 1 := Some 2, 2 := Some 3, 3 := Some 0)\<rparr>"


text \<open>That list after B is unlinked.\<close>

definition heap_ac :: heap where
  "heap_ac = set_next (set_prev (set_prev (set_next heap_abc 1 (Some 3)) 3 (Some 1)) 2 None) 2 None"


text \<open>Two lists: sentinel 0 holding 1, 2, 3 and sentinel 4 holding 5, 6.\<close>

definition heap_two :: heap where
  "heap_two =
     \<lparr>prev = (prev heap_abc)(4 := Some 6, 5 := Some 4, 6 := Some 5),
      next = (next heap_abc)(4 := Some 5, 5 := Some 6, 6 := Some 4)\<rparr>"


text \<open>The store that \<^verbatim>\<open>splice\<close> leaves when A, B of the list A, B, C are spliced before C.\<close>

definition heap_bad :: heap where
  "heap_bad =
     \<lparr>prev = (\<lambda>_. None)(0 := Some 3, 1 := Some 2, 2 := Some 1, 3 := Some 0),
      next = (\<lambda>_. None)(0 := Some 1, 1 := Some 2, 2 := Some 3, 3 := Some 0)\<rparr>"


section \<open>Basic facts about the store\<close>

lemma set_prev_simps [simp]:
  "prev (set_prev h a v) = (prev h)(a := v)"
  "next (set_prev h a v) = next h"
  by (simp_all add: set_prev_def)

lemma set_next_simps [simp]:
  "next (set_next h a v) = (next h)(a := v)"
  "prev (set_next h a v) = prev h"
  by (simp_all add: set_next_def)

lemma deref_simps [simp]:
  "deref None k = Inl NullDereference"
  "deref (Some a) k = k a"
  by (simp_all add: deref_def)


section \<open>Rings under the operations\<close>

lemma dlinks_append:
  "dlinks h (us @ vs) =
     (dlinks h us \<and> dlinks h vs \<and>
      (us \<noteq> [] \<and> vs \<noteq> [] \<longrightarrow>
         next h (last us) = Some (hd vs) \<and> prev h (hd vs) = Some (last us)))"
proof (induction h us rule: dlinks.induct)
  case (1 h)
  then show ?case by simp
next
  case (2 h x)
  then show ?case by (cases vs) auto
next
  case (3 h x y zs)
  then show ?case by auto
qed

lemma dlinks_frame:
  "dlinks h zs \<Longrightarrow>
   (\<And>x. x \<in> set (butlast zs) \<Longrightarrow> next h' x = next h x) \<Longrightarrow>
   (\<And>x. x \<in> set (tl zs) \<Longrightarrow> prev h' x = prev h x) \<Longrightarrow>
   dlinks h' zs"
proof (induction h zs rule: dlinks.induct)
  case (3 h x y zs)
  then show ?case by auto
qed simp_all

lemma unlink_eq:
  "prev h n = Some p \<Longrightarrow> next h n = Some q \<Longrightarrow> p \<noteq> n \<Longrightarrow> q \<noteq> n \<Longrightarrow>
   unlink h n = Inr (set_next (set_prev (set_prev (set_next h p (Some q)) q (Some p)) n None) n None)"
  by (simp add: unlink_def Let_def)

lemma unlink_assert_iff:
  "(unlink h n = Inl AssertionFailed) =
   (prev h n = None \<or> next h n = None \<or> prev h n = Some n \<or> next h n = Some n)"
  by (auto simp: unlink_def Let_def deref_def split: option.splits)

lemma unlink_no_null:
  "unlink h n \<noteq> Inl NullDereference"
  by (auto simp: unlink_def Let_def deref_def split: option.splits)

lemma ring_frame:
  "ring h t ys \<Longrightarrow>
   (\<And>x. x \<in> set (t # ys) \<Longrightarrow> next h' x = next h x \<and> prev h' x = prev h x) \<Longrightarrow>
   ring h' t ys"
  unfolding ring_def
  by (elim conjE, intro conjI, assumption, erule dlinks_frame)
     (auto dest: in_set_butlastD)

lemma ring_sentinel:
  "ring h s xs \<Longrightarrow>
   next h s = Some (hd (xs @ [s])) \<and> prev h s = Some (last (s # xs))"
  unfolding ring_def using dlinks_append [of h "s # xs" "[s]"]
  by (cases xs) auto

lemma ring_neighbours:
  assumes "ring h s (as @ n # bs)"
  shows "prev h n = Some (last (s # as))" "next h n = Some (hd (bs @ [s]))"
    "next h (last (s # as)) = Some n" "prev h (hd (bs @ [s])) = Some n"
    "last (s # as) \<noteq> n" "hd (bs @ [s]) \<noteq> n"
proof -
  have d: "distinct (s # as @ n # bs)" and l: "dlinks h ((s # as) @ [n] @ (bs @ [s]))"
    using assms by (simp_all add: ring_def)
  from l show "prev h n = Some (last (s # as))" "next h (last (s # as)) = Some n"
    by (simp_all only: dlinks_append [of h "s # as"]) auto
  from l have "dlinks h ([n] @ (bs @ [s]))"
    by (simp only: dlinks_append [of h "s # as"])
  then show "next h n = Some (hd (bs @ [s]))" "prev h (hd (bs @ [s])) = Some n"
    by (simp_all only: dlinks_append [of h "[n]"]) auto
  have "last (s # as) \<in> set (s # as)" by (rule last_in_set) simp
  with d show "last (s # as) \<noteq> n" by auto
  have "hd (bs @ [s]) \<in> set (bs @ [s])" by (rule hd_in_set) simp
  with d show "hd (bs @ [s]) \<noteq> n" by auto
qed

lemma last_notin_butlast:
  "distinct xs \<Longrightarrow> xs \<noteq> [] \<Longrightarrow> last xs \<notin> set (butlast xs)"
  by (induction xs) (auto dest: in_set_butlastD)

lemma hd_notin_tl:
  "distinct xs \<Longrightarrow> xs \<noteq> [] \<Longrightarrow> hd xs \<notin> set (tl xs)"
  by (cases xs) auto

lemma ring_parts:
  "ring h s (cs @ ds) =
     (distinct (s # cs @ ds) \<and> dlinks h (s # cs) \<and> dlinks h (ds @ [s]) \<and>
      next h (last (s # cs)) = Some (hd (ds @ [s])) \<and>
      prev h (hd (ds @ [s])) = Some (last (s # cs)))"
  using dlinks_append [of h "s # cs" "ds @ [s]"] by (auto simp: ring_def)

lemma parts_frame:
  assumes d: "distinct (s # cs @ ds)"
    and nx: "\<And>x. next h' x \<noteq> next h x \<Longrightarrow> x = last (s # cs) \<or> x \<notin> set (s # cs @ ds)"
    and pv: "\<And>x. prev h' x \<noteq> prev h x \<Longrightarrow> x = hd (ds @ [s]) \<or> x \<notin> set (s # cs @ ds)"
  shows "dlinks h (s # cs) \<Longrightarrow> dlinks h' (s # cs)"
    and "dlinks h (ds @ [s]) \<Longrightarrow> dlinks h' (ds @ [s])"
proof -
  have p_bl: "last (s # cs) \<notin> set (butlast (s # cs))"
    using d by (intro last_notin_butlast) auto
  have q_tl: "hd (ds @ [s]) \<notin> set (tl (ds @ [s]))"
    using d by (intro hd_notin_tl) auto
  have p_in: "last (s # cs) \<in> set (s # cs)" by (rule last_in_set) simp
  have q_in: "hd (ds @ [s]) \<in> set (ds @ [s])" by (rule hd_in_set) simp
  have q_cs: "hd (ds @ [s]) \<notin> set cs" using q_in d by auto
  have p_ds: "last (s # cs) \<notin> set ds" using p_in d by auto
  show "dlinks h' (s # cs)" if "dlinks h (s # cs)"
    using that
  proof (rule dlinks_frame)
    fix x assume x: "x \<in> set (butlast (s # cs))"
    then have "x \<in> set (s # cs)" by (rule in_set_butlastD)
    then have "x \<in> set (s # cs @ ds)" by auto
    moreover from x p_bl have "x \<noteq> last (s # cs)" by blast
    ultimately show "next h' x = next h x" using nx [of x] by blast
  next
    fix x assume "x \<in> set (tl (s # cs))"
    then have "x \<in> set cs" by simp
    then have "x \<in> set (s # cs @ ds)" by simp
    moreover from \<open>x \<in> set cs\<close> q_cs have "x \<noteq> hd (ds @ [s])" by blast
    ultimately show "prev h' x = prev h x" using pv [of x] by blast
  qed
  show "dlinks h' (ds @ [s])" if "dlinks h (ds @ [s])"
    using that
  proof (rule dlinks_frame)
    fix x assume "x \<in> set (butlast (ds @ [s]))"
    then have "x \<in> set ds" by simp
    then have "x \<in> set (s # cs @ ds)" by simp
    moreover from \<open>x \<in> set ds\<close> p_ds have "x \<noteq> last (s # cs)" by blast
    ultimately show "next h' x = next h x" using nx [of x] by blast
  next
    fix x assume x: "x \<in> set (tl (ds @ [s]))"
    then have "x \<in> set (ds @ [s])" by (rule list.set_sel(2) [rotated]) simp
    then have "x \<in> set (s # cs @ ds)" by auto
    moreover from x q_tl have "x \<noteq> hd (ds @ [s])" by blast
    ultimately show "prev h' x = prev h x" using pv [of x] by blast
  qed
qed

lemma ring_unlink:
  assumes r: "ring h s (as @ n # bs)"
  defines "h' \<equiv> set_next (set_prev (set_prev (set_next h (last (s # as)) (Some (hd (bs @ [s]))))
                 (hd (bs @ [s])) (Some (last (s # as)))) n None) n None"
  shows "unlink h n = Inr h'" "ring h' s (as @ bs)"
proof -
  note nb = ring_neighbours [OF r]
  show "unlink h n = Inr h'"
    unfolding h'_def using nb by (intro unlink_eq) auto
  have d: "distinct (s # as @ n # bs)" and l: "dlinks h ((s # as) @ [n] @ (bs @ [s]))"
    using r by (simp_all add: ring_def)
  from d have d': "distinct (s # as @ bs)" by auto
  from l have l1: "dlinks h (s # as)" and l2: "dlinks h (bs @ [s])"
    by (simp_all only: dlinks_append [of h "s # as"] dlinks_append [of h "[n]"])
  have nx: "x = last (s # as) \<or> x \<notin> set (s # as @ bs)" if "next h' x \<noteq> next h x" for x
    using that d by (auto simp: h'_def split: if_splits)
  have pv: "x = hd (bs @ [s]) \<or> x \<notin> set (s # as @ bs)" if "prev h' x \<noteq> prev h x" for x
    using that d by (auto simp: h'_def split: if_splits)
  have "dlinks h' (s # as)" "dlinks h' (bs @ [s])"
    using parts_frame [OF d' nx pv] l1 l2 by blast+
  moreover have "next h' (last (s # as)) = Some (hd (bs @ [s]))"
    "prev h' (hd (bs @ [s])) = Some (last (s # as))"
    using nb by (auto simp: h'_def)
  ultimately show "ring h' s (as @ bs)"
    using d' by (simp only: ring_parts)
qed

lemma insert_base_eq:
  "prev h this = Some p \<Longrightarrow> this \<noteq> obj \<Longrightarrow>
   insert_base h this obj =
     Inr (set_prev (set_next (set_prev (set_next h obj (Some this)) obj (Some p)) p (Some obj))
            this (Some obj))"
  by (simp add: insert_base_def Let_def)

lemma ring_insert:
  assumes r: "ring h s (cs @ ds)" and e: "e \<notin> set (s # cs @ ds)"
  defines "pos \<equiv> hd (ds @ [s])"
  defines "h' \<equiv> set_prev (set_next (set_prev (set_next h e (Some pos)) e (Some (last (s # cs))))
                 (last (s # cs)) (Some e)) pos (Some e)"
  shows "insert_base h pos e = Inr h'" "ring h' s (cs @ e # ds)"
proof -
  have d: "distinct (s # cs @ ds)" and l1: "dlinks h (s # cs)" and l2: "dlinks h (ds @ [s])"
    and pp: "prev h pos = Some (last (s # cs))"
    using r by (simp_all only: ring_parts pos_def)
  have q_in: "pos \<in> set (ds @ [s])" unfolding pos_def by (rule hd_in_set) simp
  have p_in: "last (s # cs) \<in> set (s # cs)" by (rule last_in_set) simp
  from q_in e have ne: "pos \<noteq> e" by auto
  from p_in e have ne': "last (s # cs) \<noteq> e" by auto
  show "insert_base h pos e = Inr h'"
    unfolding h'_def using pp ne by (rule insert_base_eq)
  have nx: "x = last (s # cs) \<or> x \<notin> set (s # cs @ ds)" if "next h' x \<noteq> next h x" for x
    using that e by (auto simp: h'_def split: if_splits)
  have pv: "x = hd (ds @ [s]) \<or> x \<notin> set (s # cs @ ds)" if "prev h' x \<noteq> prev h x" for x
    using that e by (auto simp: h'_def pos_def split: if_splits)
  have "dlinks h' (s # cs)" "dlinks h' (ds @ [s])"
    using parts_frame [OF d nx pv] l1 l2 by blast+
  moreover have "next h' (last (s # cs)) = Some e" "prev h' e = Some (last (s # cs))"
    "next h' e = Some pos" "prev h' pos = Some e"
    using ne ne' by (auto simp: h'_def)
  moreover have "distinct (s # cs @ e # ds)" using d e by auto
  ultimately show "ring h' s (cs @ e # ds)"
    using dlinks_append [of h' "s # cs" "[e] @ (ds @ [s])"] dlinks_append [of h' "[e]" "ds @ [s]"]
    by (simp add: ring_def pos_def)
qed

lemma cleared_simps [simp]:
  "cleared h [] = h"
  "cleared h (x # xs) = cleared (set_next (set_prev h x None) x None) xs"
  by (simp_all add: cleared_def)

lemma cleared_fields:
  "prev (cleared h xs) x = (if x \<in> set xs then None else prev h x)"
  "next (cleared h xs) x = (if x \<in> set xs then None else next h x)"
  by (induction xs arbitrary: h) auto

lemma clear_loop_chain:
  "distinct xs \<Longrightarrow> s \<notin> set xs \<Longrightarrow> dlinks h (xs @ [s]) \<Longrightarrow>
   clear_loop s (Some (hd (xs @ [s]))) h = Some (Inr (cleared h xs))"
proof (induction xs arbitrary: h)
  case Nil
  then show ?case by (simp add: clear_loop.simps)
next
  case (Cons x xs)
  let ?h = "set_next (set_prev h x None) x None"
  from Cons.prems have nx: "next h x = Some (hd (xs @ [s]))" and l: "dlinks h (xs @ [s])"
    using dlinks_append [of h "[x]" "xs @ [s]"] by simp_all
  from l have "dlinks ?h (xs @ [s])"
  proof (rule dlinks_frame)
    fix y assume "y \<in> set (butlast (xs @ [s]))"
    with Cons.prems show "next ?h y = next h y" by auto
  next
    fix y assume "y \<in> set (tl (xs @ [s]))"
    then have "y \<in> set (xs @ [s])" by (rule list.set_sel(2) [rotated]) simp
    with Cons.prems show "prev ?h y = prev h y" by auto
  qed
  with Cons.prems have "clear_loop s (Some (hd (xs @ [s]))) ?h = Some (Inr (cleared ?h xs))"
    by (intro Cons.IH) auto
  moreover have "clear_loop s (Some x) h = clear_loop s (next h x) ?h"
    using Cons.prems by (subst clear_loop.simps) auto
  ultimately show ?case using nx by simp
qed

lemma ring_clear:
  assumes r: "ring h s xs"
  defines "h' \<equiv> set_next (set_prev (cleared h xs) s (Some s)) s (Some s)"
  shows "clear h s = Some (Inr h')" "ring h' s []" "\<And>x. x \<in> set xs \<Longrightarrow> unlinked h' x"
    "\<And>x. x \<notin> set (s # xs) \<Longrightarrow> prev h' x = prev h x \<and> next h' x = next h x"
proof -
  from r have d: "distinct xs" "s \<notin> set xs" and l: "dlinks h (xs @ [s])"
    using dlinks_append [of h "[s]" "xs @ [s]"] by (simp_all add: ring_def)
  from ring_sentinel [OF r] have "next h s = Some (hd (xs @ [s]))" by simp
  with clear_loop_chain [OF d l] show "clear h s = Some (Inr h')"
    by (simp add: clear_def h'_def)
  show "ring h' s []" by (simp add: ring_def h'_def)
  show "unlinked h' x" if "x \<in> set xs" for x
    using that d by (auto simp: unlinked_def h'_def cleared_fields)
  show "prev h' x = prev h x \<and> next h' x = next h x" if "x \<notin> set (s # xs)" for x
    using that by (auto simp: h'_def cleared_fields)
qed


section \<open>Claims\<close>

subsection \<open>The list argument of splice\<close>

text \<open>
  C10. The result of \<^verbatim>\<open>list::splice\<close> does not depend on the list passed as its
  second argument: with the same three iterators, any two lists give the same final
  store (or the same failure).
\<close>

theorem list_splice_ignores_other:
  "list_splice h pos x first last' = list_splice h pos y first last'"
  by (simp add: list_splice_def)

subsection \<open>unlink and try\_unlink\<close>

lemma ring_heap_abc: "ring heap_abc 0 [1, 2, 3]"
  by (simp add: ring_def heap_abc_def)

lemma unlink_heap_abc: "unlink heap_abc 2 = Inr heap_ac"
  unfolding heap_ac_def by (rule unlink_eq) (simp_all add: heap_abc_def)

lemma unlink_fields:
  assumes "unlink h n = Inr h'"
  shows "prev h' n = None" "next h' n = None"
  using assms by (auto simp: unlink_def Let_def deref_def split: if_splits option.splits)

text \<open>
  C7. \<^verbatim>\<open>try_unlink\<close> on a node whose two pointers are null returns the store as it is:
  so does a \<^verbatim>\<open>try_unlink\<close> that follows a completed \<^verbatim>\<open>unlink\<close> of the same node, and
  one on a node fresh from the element constructor.
\<close>

theorem try_unlink_idempotent:
  "(unlinked h n \<longrightarrow> try_unlink h n = Inr h) \<and>
   (unlink h n = Inr h' \<longrightarrow> try_unlink h' n = Inr h') \<and>
   try_unlink (list_element_ctor h n) n = Inr (list_element_ctor h n)"
proof (intro conjI impI)
  assume "unlinked h n"
  then show "try_unlink h n = Inr h" by (simp add: unlinked_def try_unlink_def)
next
  assume "unlink h n = Inr h'"
  from unlink_fields [OF this] show "try_unlink h' n = Inr h'"
    by (simp add: try_unlink_def)
next
  show "try_unlink (list_element_ctor h n) n = Inr (list_element_ctor h n)"
    by (simp add: try_unlink_def list_element_ctor_def)
qed

theorem try_unlink_idempotent_witness:
  "unlinked heap_null 1 \<and> try_unlink heap_null 1 = Inr heap_null \<and>
   unlink heap_abc 2 = Inr heap_ac \<and> try_unlink heap_ac 2 = Inr heap_ac"
  using try_unlink_idempotent [of heap_null 1] try_unlink_idempotent [of heap_abc 2 heap_ac]
    unlink_heap_abc
  by (simp add: unlinked_def heap_null_def)

lemma ring_member_linked:
  assumes r: "ring h s xs" and ne: "xs \<noteq> []" and n: "n \<in> set (s # xs)"
  shows "\<exists>p q. prev h n = Some p \<and> next h n = Some q \<and> p \<noteq> n \<and> q \<noteq> n"
proof (cases "n = s")
  case True
  from r have d: "distinct (s # xs)" by (simp add: ring_def)
  have "last xs \<in> set xs" "hd xs \<in> set xs" using ne by simp_all
  with d have "last xs \<noteq> s" "hd xs \<noteq> s" by auto
  with ring_sentinel [OF r] ne True show ?thesis by simp
next
  case False
  with n obtain as bs where xs: "xs = as @ n # bs" by (auto dest: split_list)
  from ring_neighbours [OF r [unfolded xs]] show ?thesis by blast
qed

text \<open>
  C8. \<^verbatim>\<open>unlink\<close> fails an assertion exactly when \<^verbatim>\<open>prev\<close> or \<^verbatim>\<open>next\<close> is null or
  points to the node itself. On every node of a ring of at least two nodes (the sentinel
  and at least one member) the four assertions hold and \<^verbatim>\<open>unlink\<close> completes: the two
  neighbours point to each other and the node's own pointers are null.
\<close>

theorem unlink_assertions:
  "(unlink h n = Inl AssertionFailed \<longleftrightarrow>
      prev h n = None \<or> next h n = None \<or> prev h n = Some n \<or> next h n = Some n) \<and>
   (ring h s xs \<and> xs \<noteq> [] \<and> n \<in> set (s # xs) \<longrightarrow>
      (\<exists>p q h'. prev h n = Some p \<and> next h n = Some q \<and> p \<noteq> n \<and> q \<noteq> n \<and>
         unlink h n = Inr h' \<and> next h' p = Some q \<and> prev h' q = Some p \<and>
         prev h' n = None \<and> next h' n = None))"
proof (intro conjI impI)
  show "unlink h n = Inl AssertionFailed \<longleftrightarrow>
      prev h n = None \<or> next h n = None \<or> prev h n = Some n \<or> next h n = Some n"
    by (rule unlink_assert_iff)
next
  assume "ring h s xs \<and> xs \<noteq> [] \<and> n \<in> set (s # xs)"
  then obtain p q where pq: "prev h n = Some p" "next h n = Some q" "p \<noteq> n" "q \<noteq> n"
    using ring_member_linked [of h s xs n] by blast
  let ?h = "set_next (set_prev (set_prev (set_next h p (Some q)) q (Some p)) n None) n None"
  have "unlink h n = Inr ?h" using pq by (rule unlink_eq)
  moreover have "next ?h p = Some q" "prev ?h q = Some p" "prev ?h n = None" "next ?h n = None"
    using pq by simp_all
  ultimately show "\<exists>p q h'. prev h n = Some p \<and> next h n = Some q \<and> p \<noteq> n \<and> q \<noteq> n \<and>
         unlink h n = Inr h' \<and> next h' p = Some q \<and> prev h' q = Some p \<and>
         prev h' n = None \<and> next h' n = None"
    using pq by blast
qed

theorem unlink_assertions_witness:
  "ring heap_abc 0 [1, 2, 3] \<and> unlink heap_abc 2 = Inr heap_ac \<and>
   prev heap_abc 2 = Some 1 \<and> next heap_abc 2 = Some 3 \<and>
   next heap_ac 1 = Some 3 \<and> prev heap_ac 3 = Some 1 \<and>
   prev heap_ac 2 = None \<and> next heap_ac 2 = None \<and>
   unlink heap_ac 2 = Inl AssertionFailed"
  using unlink_assertions [of heap_abc 2 0 "[1, 2, 3]"] unlink_assertions [of heap_ac 2]
    ring_heap_abc unlink_heap_abc
  by (auto simp: heap_abc_def heap_ac_def)

subsection \<open>Destruction, erase and clear\<close>

lemma ring_unlink_frame:
  assumes r: "ring h s (as @ n # bs)"
  shows "\<exists>h'. unlink h n = Inr h' \<and> ring h' s (as @ bs) \<and> unlinked h' n \<and>
     next h' (last (s # as)) = Some (hd (bs @ [s])) \<and>
     prev h' (hd (bs @ [s])) = Some (last (s # as)) \<and>
     (\<forall>x. x \<notin> {n, last (s # as), hd (bs @ [s])} \<longrightarrow>
        prev h' x = prev h x \<and> next h' x = next h x)"
proof -
  define p q where "p = last (s # as)" and "q = hd (bs @ [s])"
  define h' where "h' = set_next (set_prev (set_prev (set_next h p (Some q)) q (Some p)) n None) n None"
  have pn: "p \<noteq> n" "q \<noteq> n"
    unfolding p_def q_def by (rule ring_neighbours(5,6) [OF r])+
  have "unlink h n = Inr h'" "ring h' s (as @ bs)"
    using ring_unlink [OF r] by (simp_all only: h'_def p_def q_def)
  moreover have "unlinked h' n" by (simp add: unlinked_def h'_def)
  moreover have "next h' p = Some q" "prev h' q = Some p" using pn by (simp_all add: h'_def)
  moreover have "\<forall>x. x \<notin> {n, p, q} \<longrightarrow> prev h' x = prev h x \<and> next h' x = next h x"
    by (simp add: h'_def)
  ultimately show ?thesis unfolding p_def q_def by blast
qed

text \<open>
  C3. Destroying an element that is linked in a list (the destructor runs
  \<^verbatim>\<open>try_unlink\<close>) removes that element and keeps the others in order: from the list
  \<open>as @ b # cs\<close> it leaves \<open>as @ cs\<close>, \<^verbatim>\<open>begin()\<close> is the first remaining element, the
  two former neighbours of \<open>b\<close> point to each other, and no field of any node other than
  \<open>b\<close> and these two neighbours changes. For the list A, B, C: the list A, C with
  \<^verbatim>\<open>begin()\<close> at A, A's next at C and C's prev at A.
\<close>

theorem destroy_linked_element:
  assumes "ring h s (as @ b # cs)"
  shows "\<exists>h'. list_element_dtor h b = Inr h' \<and> ring h' s (as @ cs) \<and> unlinked h' b \<and>
     list_begin h' s = Some (hd (as @ cs @ [s])) \<and>
     next h' (last (s # as)) = Some (hd (cs @ [s])) \<and>
     prev h' (hd (cs @ [s])) = Some (last (s # as)) \<and>
     (\<forall>n. n \<notin> {b, last (s # as), hd (cs @ [s])} \<longrightarrow>
        prev h' n = prev h n \<and> next h' n = next h n)"
proof -
  from ring_neighbours(1,2) [OF assms] have "try_unlink h b = unlink h b"
    by (simp add: try_unlink_def)
  moreover from ring_unlink_frame [OF assms] obtain h' where h':
    "unlink h b = Inr h'" "ring h' s (as @ cs)" "unlinked h' b"
    "next h' (last (s # as)) = Some (hd (cs @ [s]))"
    "prev h' (hd (cs @ [s])) = Some (last (s # as))"
    "\<forall>x. x \<notin> {b, last (s # as), hd (cs @ [s])} \<longrightarrow> prev h' x = prev h x \<and> next h' x = next h x"
    by blast
  moreover from ring_sentinel [OF h'(2)] have "list_begin h' s = Some (hd (as @ cs @ [s]))"
    by (simp add: list_begin_def)
  ultimately show ?thesis
    unfolding list_element_dtor_def by (intro exI [of _ h']) (simp only: simp_thms)
qed

theorem destroy_linked_element_witness:
  "ring heap_abc 0 ([1] @ 2 # [3]) \<and> list_element_dtor heap_abc 2 = Inr heap_ac \<and>
   ring heap_ac 0 [1, 3] \<and> list_begin heap_ac 0 = Some 1 \<and>
   next heap_ac 1 = Some 3 \<and> prev heap_ac 3 = Some 1 \<and> unlinked heap_ac 2"
proof -
  have r: "ring heap_abc 0 ([1] @ 2 # [3])" using ring_heap_abc by simp
  have d: "list_element_dtor heap_abc 2 = Inr heap_ac"
    using unlink_heap_abc by (simp add: list_element_dtor_def try_unlink_def heap_abc_def)
  from destroy_linked_element [OF r] d r show ?thesis by auto
qed

text \<open>
  C5. \<^verbatim>\<open>erase(pos)\<close> at a position \<open>b\<close> other than the end unlinks exactly \<open>b\<close> and returns
  the position that followed it. In the scenario: after \<^verbatim>\<open>push_back\<close> of A, B, C into an
  empty list, erasing B returns an iterator that dereferences to C, \<^verbatim>\<open>front()\<close> is A,
  \<^verbatim>\<open>back()\<close> is C, the list is not empty, and after erasing A and C it is empty.
\<close>

theorem erase_returns_next:
  "(ring h s (as @ b # cs) \<longrightarrow>
      (\<exists>h'. erase h (Some b) = Inr (h', Some (hd (cs @ [s]))) \<and> ring h' s (as @ cs) \<and>
         unlinked h' b \<and>
         (\<forall>n. n \<notin> {b, last (s # as), hd (cs @ [s])} \<longrightarrow>
            prev h' n = prev h n \<and> next h' n = next h n))) \<and>
   (ring h0 s [] \<and> distinct [s, a, b, c] \<longrightarrow>
      (\<exists>h1 h2 h3 h4 h5 h6 it it1 it2.
         push_back h0 s a = Inr h1 \<and> push_back h1 s b = Inr h2 \<and> push_back h2 s c = Inr h3 \<and>
         erase h3 (Some b) = Inr (h4, it) \<and> iter_deref it = Inr c \<and>
         list_front h4 s = Inr a \<and> list_back h4 s = Inr c \<and> \<not> list_empty h4 s \<and>
         erase h4 (Some a) = Inr (h5, it1) \<and> erase h5 (Some c) = Inr (h6, it2) \<and>
         list_empty h6 s))"
proof (intro conjI impI)
  assume r: "ring h s (as @ b # cs)"
  from ring_unlink_frame [OF r] obtain h' where h':
    "unlink h b = Inr h'" "ring h' s (as @ cs)" "unlinked h' b"
    "\<forall>x. x \<notin> {b, last (s # as), hd (cs @ [s])} \<longrightarrow> prev h' x = prev h x \<and> next h' x = next h x"
    by blast
  from ring_neighbours(2) [OF r] h'(1)
  have "erase h (Some b) = Inr (h', Some (hd (cs @ [s])))"
    by (simp add: erase_def Let_def)
  with h' show "\<exists>h'. erase h (Some b) = Inr (h', Some (hd (cs @ [s]))) \<and> ring h' s (as @ cs) \<and>
         unlinked h' b \<and>
         (\<forall>n. n \<notin> {b, last (s # as), hd (cs @ [s])} \<longrightarrow>
            prev h' n = prev h n \<and> next h' n = next h n)"
    by blast
next
  assume "ring h0 s [] \<and> distinct [s, a, b, c]"
  then have r0: "ring h0 s ([] @ [])" and d: "s \<noteq> a" "s \<noteq> b" "s \<noteq> c" "a \<noteq> b" "a \<noteq> c" "b \<noteq> c"
    by simp_all
  have push: "\<exists>h'. push_back h s e = Inr h' \<and> ring h' s (xs @ [e])"
    if "ring h s xs" "e \<notin> set (s # xs)" for h xs e
    using ring_insert [of h s xs "[]" e] that by (simp add: push_back_def to_base_def)
  have er: "\<exists>h'. erase h (Some e) = Inr (h', Some (hd (ys @ [s]))) \<and> ring h' s (xs @ ys)"
    if "ring h s (xs @ e # ys)" for h xs e ys
    using ring_unlink [OF that] ring_neighbours(2) [OF that] by (simp add: erase_def Let_def)
  from push [of h0 "[]" a] r0 d obtain h1 where h1: "push_back h0 s a = Inr h1" "ring h1 s [a]"
    by auto
  from push [OF h1(2), of b] d obtain h2 where h2: "push_back h1 s b = Inr h2" "ring h2 s [a, b]"
    by auto
  from push [OF h2(2), of c] d obtain h3 where h3: "push_back h2 s c = Inr h3" "ring h3 s [a, b, c]"
    by auto
  from er [of h3 "[a]" b "[c]"] h3(2) obtain h4
    where h4: "erase h3 (Some b) = Inr (h4, Some c)" "ring h4 s [a, c]" by auto
  from er [of h4 "[]" a "[c]"] h4(2) obtain h5
    where h5: "erase h4 (Some a) = Inr (h5, Some c)" "ring h5 s [c]" by auto
  from er [of h5 "[]" c "[]"] h5(2) obtain h6
    where h6: "erase h5 (Some c) = Inr (h6, Some s)" "ring h6 s []" by auto
  have "iter_deref (Some c) = Inr c" by (simp add: iter_deref_def from_base_def)
  moreover from ring_sentinel [OF h4(2)] d
  have "list_front h4 s = Inr a" "list_back h4 s = Inr c" "\<not> list_empty h4 s"
    by (simp_all add: list_front_def list_back_def list_empty_def from_base_def)
  moreover from ring_sentinel [OF h6(2)] have "list_empty h6 s"
    by (simp add: list_empty_def)
  ultimately show "\<exists>h1 h2 h3 h4 h5 h6 it it1 it2.
         push_back h0 s a = Inr h1 \<and> push_back h1 s b = Inr h2 \<and> push_back h2 s c = Inr h3 \<and>
         erase h3 (Some b) = Inr (h4, it) \<and> iter_deref it = Inr c \<and>
         list_front h4 s = Inr a \<and> list_back h4 s = Inr c \<and> \<not> list_empty h4 s \<and>
         erase h4 (Some a) = Inr (h5, it1) \<and> erase h5 (Some c) = Inr (h6, it2) \<and>
         list_empty h6 s"
    using h1(1) h2(1) h3(1) h4(1) h5(1) h6(1) by blast
qed

theorem erase_returns_next_witness:
  "ring heap_abc 0 ([1] @ 2 # [3]) \<and>
   (\<exists>h'. erase heap_abc (Some 2) = Inr (h', Some 3) \<and> ring h' 0 [1, 3] \<and> unlinked h' 2) \<and>
   ring (list_ctor heap_null 0) 0 [] \<and> distinct [0, 1, 2, 3 :: nat] \<and>
   (\<exists>h1 h2 h3 h4 h5 h6 it it1 it2.
      push_back (list_ctor heap_null 0) 0 1 = Inr h1 \<and> push_back h1 0 2 = Inr h2 \<and>
      push_back h2 0 3 = Inr h3 \<and>
      erase h3 (Some 2) = Inr (h4, it) \<and> iter_deref it = Inr 3 \<and>
      list_front h4 0 = Inr 1 \<and> list_back h4 0 = Inr 3 \<and> \<not> list_empty h4 0 \<and>
      erase h4 (Some 1) = Inr (h5, it1) \<and> erase h5 (Some 3) = Inr (h6, it2) \<and>
      list_empty h6 0)"
proof -
  have r: "ring heap_abc 0 ([1] @ 2 # [3])" using ring_heap_abc by simp
  have r0: "ring (list_ctor heap_null 0) 0 [] \<and> distinct [0, 1, 2, 3 :: nat]"
    by (simp add: ring_def list_ctor_def)
  note t = erase_returns_next [where h = heap_abc and s = 0 and as = "[1]" and b = 2
      and cs = "[3]" and ?h0.0 = "list_ctor heap_null 0" and a = 1 and c = 3]
  from t r have "\<exists>h'. erase heap_abc (Some 2) = Inr (h', Some 3) \<and> ring h' 0 [1, 3] \<and> unlinked h' 2"
    by auto
  moreover from t r0 have "\<exists>h1 h2 h3 h4 h5 h6 it it1 it2.
      push_back (list_ctor heap_null 0) 0 1 = Inr h1 \<and> push_back h1 0 2 = Inr h2 \<and>
      push_back h2 0 3 = Inr h3 \<and>
      erase h3 (Some 2) = Inr (h4, it) \<and> iter_deref it = Inr 3 \<and>
      list_front h4 0 = Inr 1 \<and> list_back h4 0 = Inr 3 \<and> \<not> list_empty h4 0 \<and>
      erase h4 (Some 1) = Inr (h5, it1) \<and> erase h5 (Some 3) = Inr (h6, it2) \<and>
      list_empty h6 0"
    by blast
  ultimately show ?thesis using r r0 by blast
qed

text \<open>
  C6. On every list, \<^verbatim>\<open>clear()\<close> returns, \<^verbatim>\<open>empty()\<close> is true afterwards, and every element
  that was linked in the list is unlinked (both pointers null), so that \<^verbatim>\<open>try_unlink\<close> on
  it changes nothing.
\<close>

theorem clear_empties_list:
  assumes "ring h s xs"
  shows "\<exists>h'. list_clear h s = Some (Inr h') \<and> list_empty h' s \<and> ring h' s [] \<and>
     (\<forall>x\<in>set xs. unlinked h' x \<and> try_unlink h' x = Inr h')"
proof -
  define h' where "h' = set_next (set_prev (cleared h xs) s (Some s)) s (Some s)"
  note c = ring_clear [OF assms, folded h'_def]
  have "list_empty h' s" by (simp add: list_empty_def h'_def)
  moreover have "unlinked h' x \<and> try_unlink h' x = Inr h'" if "x \<in> set xs" for x
    using c(3) [OF that] by (simp add: unlinked_def try_unlink_def)
  ultimately show ?thesis using c(1,2) unfolding list_clear_def by blast
qed

theorem clear_empties_list_witness:
  "ring heap_abc 0 [1, 2, 3] \<and>
   (\<exists>h'. list_clear heap_abc 0 = Some (Inr h') \<and> list_empty h' 0 \<and> ring h' 0 [] \<and>
      unlinked h' 1 \<and> unlinked h' 2 \<and> unlinked h' 3 \<and>
      try_unlink h' 1 = Inr h' \<and> try_unlink h' 2 = Inr h' \<and> try_unlink h' 3 = Inr h')"
  using clear_empties_list [OF ring_heap_abc] ring_heap_abc by auto

subsection \<open>Splicing between two lists, move construction and move assignment\<close>

lemma triswap_distinct:
  "a \<noteq> b \<Longrightarrow> a \<noteq> c \<Longrightarrow> b \<noteq> c \<Longrightarrow> triswap f a b c = f(a := f b, b := f c, c := f a)"
  by (simp add: triswap_def Let_def)

lemma splice_eq:
  assumes "first \<noteq> last'" "this \<noteq> first" "this \<noteq> last'"
    and "prev h this = Some a" "prev h first = Some b" "prev h last' = Some c"
    and "a \<noteq> b" "a \<noteq> c" "b \<noteq> c"
    and "next h a = Some this" "next h b = Some first" "next h c = Some last'"
  shows "splice h this first last' =
     Inr (h\<lparr>next := (next h)(a := Some first, b := Some last', c := Some this),
            prev := (prev h)(this := Some c, last' := Some b, first := Some a)\<rparr>)"
  using assms by (simp add: splice_def Let_def triswap_distinct)

lemma ring_splice_other:
  assumes rx: "ring h fx (as @ rs @ bs)" and ry: "ring h fy (cs @ ds)"
    and disj: "set (fx # as @ rs @ bs) \<inter> set (fy # cs @ ds) = {}" and ne: "rs \<noteq> []"
  defines "h' \<equiv> h\<lparr>next := (next h)(last (fy # cs) := Some (hd rs),
                                      last (fx # as) := Some (hd (bs @ [fx])),
                                      last rs := Some (hd (ds @ [fy]))),
                    prev := (prev h)(hd (ds @ [fy]) := Some (last rs),
                                      hd (bs @ [fx]) := Some (last (fx # as)),
                                      hd rs := Some (last (fy # cs)))\<rparr>"
  shows "splice h (hd (ds @ [fy])) (hd rs) (hd (bs @ [fx])) = Inr h'"
    and "ring h' fx (as @ bs)" and "ring h' fy (cs @ rs @ ds)"
proof -
  define A B C where "A = last (fy # cs)" and "B = last (fx # as)" and "C = last rs"
  define pos first lastn where "pos = hd (ds @ [fy])" and "first = hd rs"
    and "lastn = hd (bs @ [fx])"
  define SX R SY where "SX = set (fx # as @ bs)" and "R = set rs" and "SY = set (fy # cs @ ds)"
  note defs = A_def B_def C_def pos_def first_def lastn_def
  have h': "h' = h\<lparr>next := (next h)(A := Some first, B := Some lastn, C := Some pos),
                      prev := (prev h)(pos := Some C, lastn := Some B, first := Some A)\<rparr>"
    by (simp only: h'_def defs)
  have dx: "distinct (fx # as @ rs @ bs)" using rx by (simp add: ring_def)
  have dy: "distinct (fy # cs @ ds)" using ry by (simp add: ring_def)
  have dx': "distinct (fx # as @ bs)" using dx by auto
  have dr: "distinct rs" using dx by simp
  have RX: "R \<inter> SX = {}" unfolding R_def SX_def using dx by auto
  have XY: "SX \<inter> SY = {}" "R \<inter> SY = {}" unfolding R_def SX_def SY_def using disj by auto
  have "hd ((rs @ bs) @ [fx]) = first" using ne by (simp add: first_def)
  then have x1: "dlinks h (fx # as)" and x2: "dlinks h (rs @ (bs @ [fx]))"
    and x3: "next h B = Some first" and x4: "prev h first = Some B"
    using rx unfolding B_def by (simp_all only: ring_parts [of h fx as "rs @ bs"] append_assoc)
  have "bs @ [fx] \<noteq> []" by simp
  with x2 ne have x5: "dlinks h rs" and x6: "dlinks h (bs @ [fx])"
    and x7: "next h C = Some lastn" and x8: "prev h lastn = Some C"
    unfolding C_def lastn_def by (simp_all only: dlinks_append [of h rs "bs @ [fx]"] simp_thms)
  have y1: "dlinks h (fy # cs)" and y2: "dlinks h (ds @ [fy])"
    and y3: "next h A = Some pos" and y4: "prev h pos = Some A"
    using ry unfolding A_def pos_def by (simp_all only: ring_parts)
  have "last (fy # cs) \<in> set (fy # cs)" by (rule last_in_set) simp
  then have A_in: "A \<in> SY" unfolding A_def SY_def by auto
  have "last (fx # as) \<in> set (fx # as)" by (rule last_in_set) simp
  then have B_in: "B \<in> SX" unfolding B_def SX_def by auto
  have C_in: "C \<in> R" unfolding C_def R_def using ne by (rule last_in_set)
  have "hd (ds @ [fy]) \<in> set (ds @ [fy])" by (rule hd_in_set) simp
  then have pos_in: "pos \<in> SY" unfolding pos_def SY_def by auto
  have first_in: "first \<in> R" unfolding first_def R_def using ne by (rule hd_in_set)
  have "hd (bs @ [fx]) \<in> set (bs @ [fx])" by (rule hd_in_set) simp
  then have lastn_in: "lastn \<in> SX" unfolding lastn_def SX_def by auto
  have AB: "A \<noteq> B" using A_in B_in XY by blast
  have AC: "A \<noteq> C" using A_in C_in XY by blast
  have BC: "B \<noteq> C" using B_in C_in RX by blast
  have pf: "pos \<noteq> first" using pos_in first_in XY by blast
  have pl: "pos \<noteq> lastn" using pos_in lastn_in XY by blast
  have fl: "first \<noteq> lastn" using first_in lastn_in RX by blast
  have "splice h pos first lastn = Inr h'"
    unfolding h' by (rule splice_eq [OF fl pf pl y4 x4 x8 AB AC BC y3 x3 x7])
  then show "splice h (hd (ds @ [fy])) (hd rs) (hd (bs @ [fx])) = Inr h'"
    by (simp only: defs)
  have nxt: "x = A \<or> x = B \<or> x = C" if "next h' x \<noteq> next h x" for x
    using that by (simp add: h' split: if_splits)
  have prv: "x = pos \<or> x = lastn \<or> x = first" if "prev h' x \<noteq> prev h x" for x
    using that by (simp add: h' split: if_splits)
  have n': "next h' A = Some first" "next h' B = Some lastn" "next h' C = Some pos"
    using AB AC BC by (simp_all add: h')
  have p': "prev h' pos = Some C" "prev h' lastn = Some B" "prev h' first = Some A"
    using pf pl fl by (simp_all add: h')
  have "dlinks h' (fx # as)" "dlinks h' (bs @ [fx])"
  proof -
    have nx: "x = last (fx # as) \<or> x \<notin> set (fx # as @ bs)" if "next h' x \<noteq> next h x" for x
      using nxt [OF that] A_in C_in RX XY unfolding B_def [symmetric] SX_def [symmetric] by blast
    have pv: "x = hd (bs @ [fx]) \<or> x \<notin> set (fx # as @ bs)" if "prev h' x \<noteq> prev h x" for x
      using prv [OF that] pos_in first_in RX XY
      unfolding lastn_def [symmetric] SX_def [symmetric] by blast
    show "dlinks h' (fx # as)" "dlinks h' (bs @ [fx])"
      using parts_frame [OF dx' nx pv] x1 x6 by blast+
  qed
  then show "ring h' fx (as @ bs)"
    using dx' n' p' unfolding defs by (simp only: ring_parts)
  have "dlinks h' (fy # cs)" "dlinks h' (ds @ [fy])"
  proof -
    have nx: "x = last (fy # cs) \<or> x \<notin> set (fy # cs @ ds)" if "next h' x \<noteq> next h x" for x
      using nxt [OF that] B_in C_in XY unfolding A_def [symmetric] SY_def [symmetric] by blast
    have pv: "x = hd (ds @ [fy]) \<or> x \<notin> set (fy # cs @ ds)" if "prev h' x \<noteq> prev h x" for x
      using prv [OF that] lastn_in first_in XY
      unfolding pos_def [symmetric] SY_def [symmetric] by blast
    show "dlinks h' (fy # cs)" "dlinks h' (ds @ [fy])"
      using parts_frame [OF dy nx pv] y1 y2 by blast+
  qed
  moreover have "dlinks h' rs"
    using x5
  proof (rule dlinks_frame)
    fix x assume x: "x \<in> set (butlast rs)"
    then have "x \<in> R" unfolding R_def by (rule in_set_butlastD)
    moreover have "x \<noteq> C" using x last_notin_butlast [OF dr ne] unfolding C_def by blast
    ultimately show "next h' x = next h x"
      using nxt [of x] A_in B_in RX XY by blast
  next
    fix x assume x: "x \<in> set (tl rs)"
    then have "x \<in> R" unfolding R_def by (rule list.set_sel(2) [rotated]) (rule ne)
    moreover have "x \<noteq> first" using x hd_notin_tl [OF dr ne] unfolding first_def by blast
    ultimately show "prev h' x = prev h x"
      using prv [of x] pos_in lastn_in RX XY by blast
  qed
  moreover have "distinct (fy # cs @ rs @ ds)"
    using dr dy XY(2) unfolding R_def SY_def by auto
  moreover have "hd (rs @ ds @ [fy]) = first" "rs @ ds @ [fy] \<noteq> []" "ds @ [fy] \<noteq> []"
    using ne by (simp_all add: first_def)
  moreover have "fy # (cs @ rs @ ds) @ [fy] = (fy # cs) @ rs @ ds @ [fy]" by simp
  ultimately show "ring h' fy (cs @ rs @ ds)"
    using n' p' ne unfolding ring_def defs
    by (simp only: dlinks_append [of h' "fy # cs" "rs @ ds @ [fy]"]
        dlinks_append [of h' rs "ds @ [fy]"] simp_thms list.distinct)
qed

lemma ring_heap_two: "ring heap_two 0 [1, 2, 3]" "ring heap_two 4 [5, 6]"
  by (simp_all add: ring_def heap_two_def heap_abc_def)

lemma splice_whole_list:
  assumes r1: "ring h m1 xs" and r2: "ring h m2 []" and ne: "m2 \<notin> set (m1 # xs)"
  shows "\<exists>h'. list_splice h (list_end m2) m1 (list_begin h m1) (list_end m1) = Inr h' \<and>
     ring h' m1 [] \<and> ring h' m2 xs \<and>
     (\<forall>n. n \<notin> set (m1 # m2 # xs) \<longrightarrow> prev h' n = prev h n \<and> next h' n = next h n)"
proof (cases "xs = []")
  case True
  with ring_sentinel [OF r1] have "list_splice h (list_end m2) m1 (list_begin h m1) (list_end m1) = Inr h"
    by (simp add: list_splice_def list_end_def list_begin_def splice_def)
  with r1 r2 True show ?thesis by auto
next
  case False
  define h' where "h' = h\<lparr>next := (next h)(last [m2] := Some (hd xs),
                                      last [m1] := Some (hd ([] @ [m1])),
                                      last xs := Some (hd ([] @ [m2]))),
                    prev := (prev h)(hd ([] @ [m2]) := Some (last xs),
                                      hd ([] @ [m1]) := Some (last [m1]),
                                      hd xs := Some (last [m2]))\<rparr>"
  have r1': "ring h m1 ([] @ xs @ [])" and r2': "ring h m2 ([] @ [])" using r1 r2 by simp_all
  have disj: "set (m1 # [] @ xs @ []) \<inter> set (m2 # [] @ []) = {}" using ne by auto
  note s = ring_splice_other [OF r1' r2' disj False, folded h'_def]
  have "hd xs \<in> set xs" "last xs \<in> set xs" using False by simp_all
  then have fr: "\<forall>n. n \<notin> set (m1 # m2 # xs) \<longrightarrow> prev h' n = prev h n \<and> next h' n = next h n"
    by (auto simp: h'_def)
  from ring_sentinel [OF r1] False have "list_begin h m1 = Some (hd xs)"
    by (simp add: list_begin_def)
  with s(1) have "list_splice h (list_end m2) m1 (list_begin h m1) (list_end m1) = Inr h'"
    by (simp add: list_splice_def list_end_def)
  with s(2,3) fr show ?thesis by auto
qed

text \<open>
  C4. Move-constructing a list at the fresh sentinel \<open>m2\<close> from the list \<open>m1\<close> holding
  \<open>xs\<close> completes; afterwards \<open>m1\<close> is empty and \<open>m2\<close> holds exactly \<open>xs\<close>, in the same
  order. The elements are the same objects: an iterator to a member of \<open>xs\<close> still
  dereferences to that member, and no node outside the two lists changes.
\<close>

theorem move_ctor_moves:
  assumes r: "ring h m1 xs" and ne: "m2 \<notin> set (m1 # xs)"
  shows "\<exists>h'. list_move_ctor h m2 m1 = Inr h' \<and>
     ring h' m1 [] \<and> list_empty h' m1 \<and> ring h' m2 xs \<and>
     (\<forall>x\<in>set xs. iter_deref (Some x) = Inr x) \<and>
     (\<forall>n. n \<notin> set (m1 # m2 # xs) \<longrightarrow> prev h' n = prev h n \<and> next h' n = next h n)"
proof -
  let ?h1 = "list_ctor h m2"
  have r1: "ring ?h1 m1 xs"
    using r
  proof (rule ring_frame)
    fix x assume "x \<in> set (m1 # xs)"
    with ne have "x \<noteq> m2" by auto
    then show "next ?h1 x = next h x \<and> prev ?h1 x = prev h x" by (simp add: list_ctor_def)
  qed
  have r2: "ring ?h1 m2 []" by (simp add: ring_def list_ctor_def)
  from splice_whole_list [OF r1 r2 ne] obtain h' where h':
    "list_splice ?h1 (list_end m2) m1 (list_begin ?h1 m1) (list_end m1) = Inr h'"
    "ring h' m1 []" "ring h' m2 xs"
    "\<forall>n. n \<notin> set (m1 # m2 # xs) \<longrightarrow> prev h' n = prev ?h1 n \<and> next h' n = next ?h1 n"
    by blast
  have "list_move_ctor h m2 m1 = Inr h'" using h'(1) by (simp add: list_move_ctor_def Let_def)
  moreover have "list_empty h' m1" using ring_sentinel [OF h'(2)] by (simp add: list_empty_def)
  moreover have "\<forall>x\<in>set xs. iter_deref (Some x) = Inr x"
    by (simp add: iter_deref_def from_base_def)
  moreover have "\<forall>n. n \<notin> set (m1 # m2 # xs) \<longrightarrow> prev h' n = prev h n \<and> next h' n = next h n"
    using h'(4) by (simp add: list_ctor_def)
  ultimately show ?thesis using h'(2,3) by blast
qed

theorem move_ctor_moves_witness:
  "ring heap_abc 0 [1, 2, 3] \<and> 4 \<notin> set [0, 1, 2, 3 :: nat] \<and>
   (\<exists>h'. list_move_ctor heap_abc 4 0 = Inr h' \<and> ring h' 0 [] \<and> list_empty h' 0 \<and>
      ring h' 4 [1, 2, 3] \<and> iter_deref (Some 2) = Inr 2)"
  using move_ctor_moves [OF ring_heap_abc, of 4] ring_heap_abc by auto

text \<open>
  C9. Move-assignment first clears the destination: every element linked in it is
  unlinked before the source's elements are taken over, and stays unlinked. Assigning a
  list to itself therefore leaves it empty, with all of its former elements unlinked.
\<close>

theorem move_assign_clears_first:
  "(ring h d ds \<and> ring h s xs \<and> set (d # ds) \<inter> set (s # xs) = {} \<longrightarrow>
      (\<exists>h1 h'. clear h d = Some (Inr h1) \<and> (\<forall>x\<in>set ds. unlinked h1 x) \<and>
         list_move_assign h d s = Some (Inr h') \<and>
         ring h' d xs \<and> ring h' s [] \<and> (\<forall>x\<in>set ds. unlinked h' x))) \<and>
   (ring h d ds \<longrightarrow>
      (\<exists>h'. list_move_assign h d d = Some (Inr h') \<and> ring h' d [] \<and> list_empty h' d \<and>
         (\<forall>x\<in>set ds. unlinked h' x)))"
proof (intro conjI impI)
  assume a: "ring h d ds \<and> ring h s xs \<and> set (d # ds) \<inter> set (s # xs) = {}"
  then have rd: "ring h d ds" and rs: "ring h s xs" by simp_all
  define h1 where "h1 = set_next (set_prev (cleared h ds) d (Some d)) d (Some d)"
  note c = ring_clear [OF rd, folded h1_def]
  have r1: "ring h1 s xs"
    using rs
  proof (rule ring_frame)
    fix x assume "x \<in> set (s # xs)"
    with a have "x \<notin> set (d # ds)" by blast
    from c(4) [OF this] show "next h1 x = next h x \<and> prev h1 x = prev h x" by simp
  qed
  have ne: "d \<notin> set (s # xs)" using a by auto
  from splice_whole_list [OF r1 c(2) ne] obtain h' where h':
    "list_splice h1 (list_end d) s (list_begin h1 s) (list_end s) = Inr h'"
    "ring h' s []" "ring h' d xs"
    "\<forall>n. n \<notin> set (s # d # xs) \<longrightarrow> prev h' n = prev h1 n \<and> next h' n = next h1 n"
    by blast
  have "list_move_assign h d s = Some (Inr h')"
    using c(1) h'(1) by (simp add: list_move_assign_def)
  moreover have "unlinked h' x" if "x \<in> set ds" for x
  proof -
    from rd have "distinct (d # ds)" by (simp add: ring_def)
    with that a have "x \<notin> set (s # d # xs)" by auto
    with h'(4) c(3) [OF that] show ?thesis by (simp add: unlinked_def)
  qed
  ultimately show "\<exists>h1 h'. clear h d = Some (Inr h1) \<and> (\<forall>x\<in>set ds. unlinked h1 x) \<and>
         list_move_assign h d s = Some (Inr h') \<and>
         ring h' d xs \<and> ring h' s [] \<and> (\<forall>x\<in>set ds. unlinked h' x)"
    using c(1,3) h'(2,3) by blast
next
  assume rd: "ring h d ds"
  define h1 where "h1 = set_next (set_prev (cleared h ds) d (Some d)) d (Some d)"
  note c = ring_clear [OF rd, folded h1_def]
  have "list_splice h1 (list_end d) d (list_begin h1 d) (list_end d) = Inr h1"
    using ring_sentinel [OF c(2)]
    by (simp add: list_splice_def list_end_def list_begin_def splice_def)
  then have "list_move_assign h d d = Some (Inr h1)"
    using c(1) by (simp add: list_move_assign_def)
  moreover have "list_empty h1 d" by (simp add: list_empty_def h1_def)
  ultimately show "\<exists>h'. list_move_assign h d d = Some (Inr h') \<and> ring h' d [] \<and> list_empty h' d \<and>
         (\<forall>x\<in>set ds. unlinked h' x)"
    using c(2,3) by blast
qed

theorem move_assign_clears_first_witness:
  "ring heap_two 4 [5, 6] \<and> ring heap_two 0 [1, 2, 3] \<and>
   set (4 # [5, 6]) \<inter> set (0 # [1, 2, 3 :: nat]) = {} \<and>
   (\<exists>h'. list_move_assign heap_two 4 0 = Some (Inr h') \<and> ring h' 4 [1, 2, 3] \<and> ring h' 0 [] \<and>
      unlinked h' 5 \<and> unlinked h' 6) \<and>
   ring heap_abc 0 [1, 2, 3] \<and>
   (\<exists>h'. list_move_assign heap_abc 0 0 = Some (Inr h') \<and> ring h' 0 [] \<and> list_empty h' 0 \<and>
      unlinked h' 1 \<and> unlinked h' 2 \<and> unlinked h' 3)"
proof -
  have d: "set (4 # [5, 6]) \<inter> set (0 # [1, 2, 3 :: nat]) = {}" by simp
  from move_assign_clears_first [of heap_two 4 "[5, 6]" 0 "[1, 2, 3]"] ring_heap_two d
  have "\<exists>h'. list_move_assign heap_two 4 0 = Some (Inr h') \<and> ring h' 4 [1, 2, 3] \<and> ring h' 0 [] \<and>
      unlinked h' 5 \<and> unlinked h' 6"
    by auto
  moreover from move_assign_clears_first [of heap_abc 0 "[1, 2, 3]"] ring_heap_abc
  have "\<exists>h'. list_move_assign heap_abc 0 0 = Some (Inr h') \<and> ring h' 0 [] \<and> list_empty h' 0 \<and>
      unlinked h' 1 \<and> unlinked h' 2 \<and> unlinked h' 3"
    by auto
  ultimately show ?thesis using ring_heap_two ring_heap_abc d by blast
qed

subsection \<open>The node invariant\<close>

lemma linked_iff:
  "linked h n \<longleftrightarrow>
     (\<exists>p q. prev h n = Some p \<and> next h n = Some q \<and> next h p = Some n \<and> prev h q = Some n)"
  by (auto simp: linked_def split: option.splits)

lemma node_ok_iff:
  "node_ok h n \<longleftrightarrow>
     ((prev h n = None) = (next h n = None)) \<and>
     (\<forall>p. prev h n = Some p \<longrightarrow> next h p = Some n) \<and>
     (\<forall>q. next h n = Some q \<longrightarrow> prev h q = Some n)"
  by (auto simp: node_ok_def unlinked_def linked_iff)

lemma inv_unlink:
  assumes i: "inv S h" and l: "linked h t" and u: "unlink h t = Inr h'"
  shows "inv S h'"
proof -
  from l obtain p q where pq: "prev h t = Some p" "next h t = Some q"
    "next h p = Some t" "prev h q = Some t"
    by (auto simp: linked_iff)
  from u pq have ne: "p \<noteq> t" "q \<noteq> t" by (auto simp: unlink_def split: if_splits)
  from u have h': "h' = set_next (set_prev (set_prev (set_next h p (Some q)) q (Some p)) t None) t None"
    using unlink_eq [OF pq(1,2) ne] by simp
  have nx: "next h' x = (if x = t then None else if x = p then Some q else next h x)" for x
    by (simp add: h')
  have pv: "prev h' x = (if x = t then None else if x = q then Some p else prev h x)" for x
    by (simp add: h')
  show ?thesis
    unfolding inv_def
  proof
    fix n assume "n \<in> S"
    with i have "node_ok h n" by (simp add: inv_def)
    then have ok: "(prev h n = None) = (next h n = None)"
      "\<And>x. prev h n = Some x \<Longrightarrow> next h x = Some n"
      "\<And>x. next h n = Some x \<Longrightarrow> prev h x = Some n"
      by (simp_all add: node_ok_iff)
    have "(prev h' n = None) = (next h' n = None)"
      using ok(1) pq ne by (auto simp: nx pv)
    moreover have "next h' x = Some n" if "prev h' n = Some x" for x
      using that ok(2) [of x] pq ne by (auto simp: nx pv split: if_splits)
    moreover have "prev h' x = Some n" if "next h' n = Some x" for x
      using that ok(3) [of x] pq ne by (auto simp: nx pv split: if_splits)
    ultimately show "node_ok h' n" by (simp add: node_ok_iff)
  qed
qed

lemma inv_insert:
  assumes i: "inv S h" and l: "linked h t" and un: "unlinked h obj"
  shows "\<exists>h'. insert_base h t obj = Inr h' \<and> inv S h'"
proof -
  from l obtain p where pq: "prev h t = Some p" "next h p = Some t"
    by (auto simp: linked_iff)
  from un pq have ne: "t \<noteq> obj" "p \<noteq> obj" by (auto simp: unlinked_def)
  define h' where "h' = set_prev (set_next (set_prev (set_next h obj (Some t)) obj (Some p)) p (Some obj))
            t (Some obj)"
  have nx: "next h' x = (if x = p then Some obj else if x = obj then Some t else next h x)" for x
    by (simp add: h'_def)
  have pv: "prev h' x = (if x = t then Some obj else if x = obj then Some p else prev h x)" for x
    by (simp add: h'_def)
  have "insert_base h t obj = Inr h'" unfolding h'_def using pq(1) ne(1) by (rule insert_base_eq)
  moreover have "inv S h'"
    unfolding inv_def
  proof
    fix n assume "n \<in> S"
    with i have "node_ok h n" by (simp add: inv_def)
    then have ok: "(prev h n = None) = (next h n = None)"
      "\<And>x. prev h n = Some x \<Longrightarrow> next h x = Some n"
      "\<And>x. next h n = Some x \<Longrightarrow> prev h x = Some n"
      by (simp_all add: node_ok_iff)
    from un have un': "prev h obj = None" "next h obj = None" by (simp_all add: unlinked_def)
    from l have lt: "next h t \<noteq> None" by (auto simp: linked_iff)
    have "(prev h' n = None) = (next h' n = None)"
      using ok(1) pq ne un' lt by (auto simp: nx pv)
    moreover have "next h' x = Some n" if "prev h' n = Some x" for x
      using that ok(2) [of x] pq ne un' by (auto simp: nx pv split: if_splits)
    moreover have "prev h' x = Some n" if "next h' n = Some x" for x
      using that ok(3) [of x] pq ne un' by (auto simp: nx pv split: if_splits)
    ultimately show "node_ok h' n" by (simp add: node_ok_iff)
  qed
  ultimately show ?thesis by blast
qed

lemma inv_splice:
  assumes i: "inv S h" and l: "linked h t" "linked h first" "linked h last'"
    and d: "first = last' \<or> (t \<noteq> first \<and> t \<noteq> last')"
  shows "\<exists>h'. splice h t first last' = Inr h' \<and> inv S h'"
proof (cases "first = last'")
  case True
  with i show ?thesis by (simp add: splice_def)
next
  case False
  with d have ne: "t \<noteq> first" "t \<noteq> last'" by simp_all
  from l obtain a b c where abc: "prev h t = Some a" "next h a = Some t"
    "prev h first = Some b" "next h b = Some first"
    "prev h last' = Some c" "next h c = Some last'"
    by (auto simp: linked_iff)
  from l have nn: "next h t \<noteq> None" "next h first \<noteq> None" "next h last' \<noteq> None"
    by (auto simp: linked_iff)
  from abc ne False have ne': "a \<noteq> b" "a \<noteq> c" "b \<noteq> c" by auto
  define h' where "h' = h\<lparr>next := (next h)(a := Some first, b := Some last', c := Some t),
            prev := (prev h)(t := Some c, last' := Some b, first := Some a)\<rparr>"
  have nx: "next h' x = (if x = a then Some first else if x = b then Some last'
      else if x = c then Some t else next h x)" for x
    using ne' by (simp add: h'_def)
  have pv: "prev h' x = (if x = t then Some c else if x = last' then Some b
      else if x = first then Some a else prev h x)" for x
    using ne False by (simp add: h'_def)
  have "splice h t first last' = Inr h'"
    unfolding h'_def using False ne abc(1,3,5) ne' abc(2,4,6) by (rule splice_eq)
  moreover have "inv S h'"
    unfolding inv_def
  proof
    fix n assume "n \<in> S"
    with i have "node_ok h n" by (simp add: inv_def)
    then have ok: "(prev h n = None) = (next h n = None)"
      "\<And>x. prev h n = Some x \<Longrightarrow> next h x = Some n"
      "\<And>x. next h n = Some x \<Longrightarrow> prev h x = Some n"
      by (simp_all add: node_ok_iff)
    have "(prev h' n = None) = (next h' n = None)"
      using ok(1) abc nn by (auto simp: nx pv)
    moreover have "next h' x = Some n" if "prev h' n = Some x" for x
      using that ok(2) [of x] abc ne ne' False by (auto simp: nx pv split: if_splits)
    moreover have "prev h' x = Some n" if "next h' n = Some x" for x
      using that ok(3) [of x] abc ne ne' False by (auto simp: nx pv split: if_splits)
    ultimately show "node_ok h' n" by (simp add: node_ok_iff)
  qed
  ultimately show ?thesis by blast
qed

lemma ring_linked:
  assumes r: "ring h s xs" and n: "n \<in> set (s # xs)"
  shows "linked h n"
proof (cases "n = s")
  case True
  from r have "ring h s (xs @ [])" "ring h s ([] @ xs)" by simp_all
  then have "next h (last (s # xs)) = Some s" "prev h (hd (xs @ [s])) = Some s"
    by (simp_all only: ring_parts) simp_all
  with ring_sentinel [OF r] True show ?thesis by (simp add: linked_iff)
next
  case False
  with n obtain as bs where xs: "xs = as @ n # bs" by (auto dest: split_list)
  from ring_neighbours(1-4) [OF r [unfolded xs]] show ?thesis by (simp add: linked_iff)
qed

lemma ring_closed:
  assumes r: "ring h s xs" and n: "n \<in> set (s # xs)"
  shows "\<exists>p\<in>set (s # xs). prev h n = Some p" "\<exists>q\<in>set (s # xs). next h n = Some q"
proof -
  have m: "last (s # ys) \<in> set (s # ys @ zs)" "hd (zs @ [s]) \<in> set (s # ys @ zs)" for ys zs
  proof -
    have "last (s # ys) \<in> set (s # ys)" by (rule last_in_set) simp
    then show "last (s # ys) \<in> set (s # ys @ zs)" by auto
    have "hd (zs @ [s]) \<in> set (zs @ [s])" by (rule hd_in_set) simp
    then show "hd (zs @ [s]) \<in> set (s # ys @ zs)" by auto
  qed
  show "\<exists>p\<in>set (s # xs). prev h n = Some p"
  proof (cases "n = s")
    case True
    with ring_sentinel [OF r] m(1) [of xs "[]"] show ?thesis by simp
  next
    case False
    with n obtain as bs where xs: "xs = as @ n # bs" by (auto dest: split_list)
    from ring_neighbours(1) [OF r [unfolded xs]] m(1) [of as "n # bs"] show ?thesis
      unfolding xs by blast
  qed
  show "\<exists>q\<in>set (s # xs). next h n = Some q"
  proof (cases "n = s")
    case True
    with ring_sentinel [OF r] m(2) [of xs "[]"] show ?thesis by simp
  next
    case False
    with n obtain as bs where xs: "xs = as @ n # bs" by (auto dest: split_list)
    have "hd (bs @ [s]) \<in> set (s # (as @ [n]) @ bs)" by (rule m(2))
    with ring_neighbours(2) [OF r [unfolded xs]] show ?thesis
      unfolding xs by auto
  qed
qed

lemma inv_clear:
  assumes i: "inv S h" and r: "ring h s xs"
  shows "\<exists>h'. clear h s = Some (Inr h') \<and> inv S h'"
proof -
  define h' where "h' = set_next (set_prev (cleared h xs) s (Some s)) s (Some s)"
  note c = ring_clear [OF r, folded h'_def]
  have nx: "next h' x = (if x = s then Some s else if x \<in> set xs then None else next h x)" for x
    by (simp add: h'_def cleared_fields)
  have pv: "prev h' x = (if x = s then Some s else if x \<in> set xs then None else prev h x)" for x
    by (simp add: h'_def cleared_fields)
  have "inv S h'"
    unfolding inv_def
  proof
    fix n assume "n \<in> S"
    with i have "node_ok h n" by (simp add: inv_def)
    then have ok: "(prev h n = None) = (next h n = None)"
      "\<And>x. prev h n = Some x \<Longrightarrow> next h x = Some n"
      "\<And>x. next h n = Some x \<Longrightarrow> prev h x = Some n"
      by (simp_all add: node_ok_iff)
    have "(prev h' n = None) = (next h' n = None)"
      using ok(1) by (simp add: nx pv)
    moreover have "next h' x = Some n" if "prev h' n = Some x" for x
    proof (cases "n \<in> set (s # xs)")
      case True
      with that show ?thesis by (auto simp: nx pv split: if_splits)
    next
      case False
      with that have px: "prev h n = Some x" by (simp add: pv)
      have "x \<notin> set (s # xs)"
      proof
        assume "x \<in> set (s # xs)"
        from ring_closed(2) [OF r this] ok(2) [OF px] False show False by auto
      qed
      with ok(2) [OF px] show ?thesis by (simp add: nx)
    qed
    moreover have "prev h' x = Some n" if "next h' n = Some x" for x
    proof (cases "n \<in> set (s # xs)")
      case True
      with that show ?thesis by (auto simp: nx pv split: if_splits)
    next
      case False
      with that have px: "next h n = Some x" by (simp add: nx)
      have "x \<notin> set (s # xs)"
      proof
        assume "x \<in> set (s # xs)"
        from ring_closed(1) [OF r this] ok(3) [OF px] False show False by auto
      qed
      with ok(3) [OF px] show ?thesis by (simp add: pv)
    qed
    ultimately show "node_ok h' n" by (simp add: node_ok_iff)
  qed
  with c(1) show ?thesis by blast
qed

lemma inv_ctor:
  assumes i: "inv S h" and fresh: "\<forall>n\<in>S. n \<noteq> f \<longrightarrow> prev h n \<noteq> Some f \<and> next h n \<noteq> Some f"
  shows "inv S (list_ctor h f)" "inv S (list_element_ctor h f)"
proof -
  have "node_ok (list_ctor h f) n \<and> node_ok (list_element_ctor h f) n" if "n \<in> S" for n
  proof (cases "n = f")
    case True
    then show ?thesis
      by (simp add: node_ok_iff list_ctor_def list_element_ctor_def)
  next
    case False
    from i that have "node_ok h n" by (simp add: inv_def)
    with False fresh that show ?thesis
      by (auto simp: node_ok_iff list_ctor_def list_element_ctor_def)
  qed
  then show "inv S (list_ctor h f)" "inv S (list_element_ctor h f)"
    by (simp_all add: inv_def)
qed

lemma inv_unlink_ex:
  assumes i: "inv S h" and l: "linked h n" and ne: "prev h n \<noteq> Some n"
  shows "\<exists>h'. unlink h n = Inr h' \<and> inv S h'"
proof -
  from l obtain p q where pq: "prev h n = Some p" "next h n = Some q" "prev h q = Some n"
    by (auto simp: linked_iff)
  with ne have "p \<noteq> n" "q \<noteq> n" by auto
  from unlink_eq [OF pq(1,2) this] obtain h' where u: "unlink h n = Inr h'" by blast
  with inv_unlink [OF i l u] show ?thesis by blast
qed

lemma inv_try_unlink_ex:
  assumes i: "inv S h" and ok: "node_ok h n" and ne: "prev h n \<noteq> Some n"
  shows "\<exists>h'. try_unlink h n = Inr h' \<and> inv S h'"
proof (cases "unlinked h n")
  case True
  with i show ?thesis by (simp add: try_unlink_def unlinked_def)
next
  case False
  with ok have l: "linked h n" by (simp add: node_ok_def)
  then have "try_unlink h n = unlink h n" by (auto simp: try_unlink_def linked_iff)
  with inv_unlink_ex [OF i l ne] show ?thesis by simp
qed

lemma inv_ring_unlink_ex:
  assumes i: "inv S h" and r: "ring h s xs" and n: "n \<in> set xs"
  shows "\<exists>h'. unlink h n = Inr h' \<and> inv S h'"
proof -
  from n have ne: "xs \<noteq> []" and n': "n \<in> set (s # xs)" by auto
  from ring_member_linked [OF r ne n'] have "prev h n \<noteq> Some n" by auto
  with i ring_linked [OF r n'] show ?thesis by (rule inv_unlink_ex)
qed

lemma ring_first_last_in:
  assumes r: "ring h s xs"
  shows "\<exists>q\<in>set (s # xs). next h s = Some q \<and> (xs \<noteq> [] \<longrightarrow> q \<in> set xs)"
    "\<exists>p\<in>set (s # xs). prev h s = Some p \<and> (xs \<noteq> [] \<longrightarrow> p \<in> set xs)"
  using ring_sentinel [OF r] by (cases xs; simp)+

text \<open>
  The node invariant under the operations. Every node of \<open>S\<close> (any set of nodes, all of
  them for \<open>S = UNIV\<close>) is either unlinked, both pointers null, or linked, both pointers
  non-null with \<open>n.prev.next = n\<close> and \<open>n.next.prev = n\<close>. Each operation, called under
  the condition written with it, completes and keeps the invariant: \<^verbatim>\<open>unlink\<close> on a linked
  node that is not alone in its ring; \<^verbatim>\<open>try_unlink\<close> and the element destructor on any node
  but a sentinel alone in its ring; \<^verbatim>\<open>clear\<close> on the sentinel of a ring; \<^verbatim>\<open>insert\<close> of an
  unlinked node before a linked one; the constructors on a node no other node points to;
  the list operations on valid lists (rings), \<^verbatim>\<open>pop\<close> on a non-empty one, \<^verbatim>\<open>erase\<close> at a
  member, \<^verbatim>\<open>insert\<close> and \<^verbatim>\<open>push\<close> of an unlinked element. For \<^verbatim>\<open>splice\<close> the condition is
  narrower than the contract of the list: three linked nodes where either \<open>first = last\<close> or
  the position is neither \<open>first\<close> nor \<open>last\<close>. The call with \<open>pos = last\<close> on a non-empty
  range is not covered, and the invariant does not survive it (see the last subsection).
\<close>

lemma node_invariant_preserved:
  assumes i: "inv S h"
  shows
   "(linked h n \<and> prev h n \<noteq> Some n \<longrightarrow> (\<exists>h'. unlink h n = Inr h' \<and> inv S h')) \<and>
    (node_ok h n \<and> prev h n \<noteq> Some n \<longrightarrow> (\<exists>h'. try_unlink h n = Inr h' \<and> inv S h')) \<and>
    (ring h s xs \<longrightarrow> (\<exists>h'. clear h s = Some (Inr h') \<and> inv S h')) \<and>
    (linked h n \<and> unlinked h obj \<longrightarrow> (\<exists>h'. insert_base h n obj = Inr h' \<and> inv S h')) \<and>
    (linked h pos \<and> linked h first \<and> linked h last' \<and>
       (first = last' \<or> pos \<noteq> first \<and> pos \<noteq> last') \<longrightarrow>
       (\<exists>h'. splice h pos first last' = Inr h' \<and> inv S h')) \<and>
    ((\<forall>x\<in>S. x \<noteq> f \<longrightarrow> prev h x \<noteq> Some f \<and> next h x \<noteq> Some f) \<longrightarrow>
       inv S (list_element_ctor h f) \<and> inv S (list_ctor h f)) \<and>
    (node_ok h n \<and> prev h n \<noteq> Some n \<longrightarrow>
       (\<exists>h'. list_element_dtor h n = Inr h' \<and> inv S h')) \<and>
    (ring h s xs \<longrightarrow>
       (\<exists>h'. list_clear h s = Some (Inr h') \<and> inv S h') \<and>
       (\<exists>h'. list_dtor h s = Some (Inr h') \<and> inv S h')) \<and>
    (ring h s xs \<and> unlinked h obj \<longrightarrow>
       (\<exists>h'. push_back h s obj = Inr h' \<and> inv S h') \<and>
       (\<exists>h'. push_front h s obj = Inr h' \<and> inv S h')) \<and>
    (ring h s xs \<and> xs \<noteq> [] \<longrightarrow>
       (\<exists>h'. pop_back h s = Inr h' \<and> inv S h') \<and>
       (\<exists>h'. pop_front h s = Inr h' \<and> inv S h')) \<and>
    (ring h s xs \<and> n \<in> set (s # xs) \<and> unlinked h obj \<longrightarrow>
       (\<exists>h' it. list_insert h (Some n) obj = Inr (h', it) \<and> inv S h')) \<and>
    (ring h s xs \<and> n \<in> set xs \<longrightarrow>
       (\<exists>h' it. erase h (Some n) = Inr (h', it) \<and> inv S h')) \<and>
    (ring h s xs \<and> ring h t ys \<and> pos \<in> set (s # xs) \<and>
       first \<in> set (t # ys) \<and> last' \<in> set (t # ys) \<and>
       (first = last' \<or> pos \<noteq> first \<and> pos \<noteq> last') \<longrightarrow>
       (\<exists>h'. list_splice h (Some pos) t (Some first) (Some last') = Inr h' \<and> inv S h')) \<and>
    (ring h s xs \<and> f \<notin> set (s # xs) \<and>
       (\<forall>x\<in>S. x \<noteq> f \<longrightarrow> prev h x \<noteq> Some f \<and> next h x \<noteq> Some f) \<longrightarrow>
       (\<exists>h'. list_move_ctor h f s = Inr h' \<and> inv S h')) \<and>
    (ring h s xs \<and> ring h t ys \<and> (s = t \<or> set (s # xs) \<inter> set (t # ys) = {}) \<longrightarrow>
       (\<exists>h'. list_move_assign h s t = Some (Inr h') \<and> inv S h'))"
proof -
  have unl: "linked h n \<and> prev h n \<noteq> Some n \<longrightarrow> (\<exists>h'. unlink h n = Inr h' \<and> inv S h')"
    using inv_unlink_ex [OF i] by blast
  have tun: "node_ok h n \<and> prev h n \<noteq> Some n \<longrightarrow> (\<exists>h'. try_unlink h n = Inr h' \<and> inv S h')"
    using inv_try_unlink_ex [OF i] by blast
  have clr: "ring h s xs \<longrightarrow> (\<exists>h'. clear h s = Some (Inr h') \<and> inv S h')"
    using inv_clear [OF i] by blast
  have ins: "linked h n \<and> unlinked h obj \<longrightarrow> (\<exists>h'. insert_base h n obj = Inr h' \<and> inv S h')"
    using inv_insert [OF i] by blast
  have spl: "linked h pos \<and> linked h first \<and> linked h last' \<and>
       (first = last' \<or> pos \<noteq> first \<and> pos \<noteq> last') \<longrightarrow>
       (\<exists>h'. splice h pos first last' = Inr h' \<and> inv S h')"
    using inv_splice [OF i] by blast
  have ctor: "(\<forall>x\<in>S. x \<noteq> f \<longrightarrow> prev h x \<noteq> Some f \<and> next h x \<noteq> Some f) \<longrightarrow>
       inv S (list_element_ctor h f) \<and> inv S (list_ctor h f)"
    using inv_ctor [OF i] by blast
  have dtor: "node_ok h n \<and> prev h n \<noteq> Some n \<longrightarrow>
       (\<exists>h'. list_element_dtor h n = Inr h' \<and> inv S h')"
    using tun by (simp add: list_element_dtor_def)
  have lclr: "ring h s xs \<longrightarrow>
       (\<exists>h'. list_clear h s = Some (Inr h') \<and> inv S h') \<and>
       (\<exists>h'. list_dtor h s = Some (Inr h') \<and> inv S h')"
    using clr by (simp add: list_clear_def list_dtor_def)
  have push: "ring h s xs \<and> unlinked h obj \<longrightarrow>
       (\<exists>h'. push_back h s obj = Inr h' \<and> inv S h') \<and>
       (\<exists>h'. push_front h s obj = Inr h' \<and> inv S h')"
  proof (intro impI conjI)
    assume a: "ring h s xs \<and> unlinked h obj"
    then have r: "ring h s xs" and un: "unlinked h obj" by simp_all
    from ring_linked [OF r, of s] inv_insert [OF i _ un]
    show "\<exists>h'. push_back h s obj = Inr h' \<and> inv S h'"
      by (simp add: push_back_def to_base_def)
    from ring_first_last_in(1) [OF r] obtain q where q: "q \<in> set (s # xs)" "next h s = Some q"
      by blast
    from ring_linked [OF r q(1)] inv_insert [OF i _ un] q(2)
    show "\<exists>h'. push_front h s obj = Inr h' \<and> inv S h'"
      by (simp add: push_front_def to_base_def)
  qed
  have pop: "ring h s xs \<and> xs \<noteq> [] \<longrightarrow>
       (\<exists>h'. pop_back h s = Inr h' \<and> inv S h') \<and>
       (\<exists>h'. pop_front h s = Inr h' \<and> inv S h')"
  proof (intro impI conjI)
    assume a: "ring h s xs \<and> xs \<noteq> []"
    then have r: "ring h s xs" and ne: "xs \<noteq> []" by simp_all
    from ring_first_last_in(2) [OF r] ne obtain p where p: "p \<in> set xs" "prev h s = Some p"
      by blast
    from inv_ring_unlink_ex [OF i r p(1)] p(2)
    show "\<exists>h'. pop_back h s = Inr h' \<and> inv S h'" by (simp add: pop_back_def)
    from ring_first_last_in(1) [OF r] ne obtain q where q: "q \<in> set xs" "next h s = Some q"
      by blast
    from inv_ring_unlink_ex [OF i r q(1)] q(2)
    show "\<exists>h'. pop_front h s = Inr h' \<and> inv S h'" by (simp add: pop_front_def)
  qed
  have lins: "ring h s xs \<and> n \<in> set (s # xs) \<and> unlinked h obj \<longrightarrow>
       (\<exists>h' it. list_insert h (Some n) obj = Inr (h', it) \<and> inv S h')"
  proof
    assume a: "ring h s xs \<and> n \<in> set (s # xs) \<and> unlinked h obj"
    then have "linked h n" using ring_linked [of h s xs n] by blast
    from inv_insert [OF i this, of obj] a
    show "\<exists>h' it. list_insert h (Some n) obj = Inr (h', it) \<and> inv S h'"
      by (auto simp: list_insert_def to_base_def)
  qed
  have ers: "ring h s xs \<and> n \<in> set xs \<longrightarrow>
       (\<exists>h' it. erase h (Some n) = Inr (h', it) \<and> inv S h')"
  proof
    assume a: "ring h s xs \<and> n \<in> set xs"
    with inv_ring_unlink_ex [OF i, of s xs n]
    show "\<exists>h' it. erase h (Some n) = Inr (h', it) \<and> inv S h'"
      by (auto simp: erase_def Let_def)
  qed
  have lspl: "ring h s xs \<and> ring h t ys \<and> pos \<in> set (s # xs) \<and>
       first \<in> set (t # ys) \<and> last' \<in> set (t # ys) \<and>
       (first = last' \<or> pos \<noteq> first \<and> pos \<noteq> last') \<longrightarrow>
       (\<exists>h'. list_splice h (Some pos) t (Some first) (Some last') = Inr h' \<and> inv S h')"
  proof
    assume a: "ring h s xs \<and> ring h t ys \<and> pos \<in> set (s # xs) \<and>
       first \<in> set (t # ys) \<and> last' \<in> set (t # ys) \<and>
       (first = last' \<or> pos \<noteq> first \<and> pos \<noteq> last')"
    then have "linked h pos" "linked h first" "linked h last'"
      using ring_linked [of h s xs pos] ring_linked [of h t ys first]
        ring_linked [of h t ys last'] by blast+
    from inv_splice [OF i this] a
    show "\<exists>h'. list_splice h (Some pos) t (Some first) (Some last') = Inr h' \<and> inv S h'"
      by (simp add: list_splice_def)
  qed
  have take_all: "\<exists>h'. list_splice h1 (list_end d) t (list_begin h1 t) (list_end t) = Inr h' \<and>
      inv S h'"
    if i1: "inv S h1" and r1: "ring h1 t ys" and r2: "ring h1 d []" and ne: "d \<notin> set (t # ys)"
    for h1 d t ys
  proof -
    from ring_first_last_in(1) [OF r1] obtain q
      where q: "q \<in> set (t # ys)" "next h1 t = Some q" by blast
    have "linked h1 d" "linked h1 q" "linked h1 t"
      using ring_linked [OF r2, of d] ring_linked [OF r1 q(1)] ring_linked [OF r1, of t]
      by simp_all
    moreover have "q = t \<or> d \<noteq> q \<and> d \<noteq> t" using q(1) ne by auto
    ultimately have "\<exists>h'. splice h1 d q t = Inr h' \<and> inv S h'" by (rule inv_splice [OF i1])
    with q(2) show ?thesis by (simp add: list_splice_def list_end_def list_begin_def)
  qed
  have mctor: "ring h s xs \<and> f \<notin> set (s # xs) \<and>
       (\<forall>x\<in>S. x \<noteq> f \<longrightarrow> prev h x \<noteq> Some f \<and> next h x \<noteq> Some f) \<longrightarrow>
       (\<exists>h'. list_move_ctor h f s = Inr h' \<and> inv S h')"
  proof
    assume a: "ring h s xs \<and> f \<notin> set (s # xs) \<and>
       (\<forall>x\<in>S. x \<noteq> f \<longrightarrow> prev h x \<noteq> Some f \<and> next h x \<noteq> Some f)"
    then have r: "ring h s xs" and ne: "f \<notin> set (s # xs)" by simp_all
    let ?h1 = "list_ctor h f"
    from a have i1: "inv S ?h1" using inv_ctor(1) [OF i] by blast
    have r1: "ring ?h1 s xs"
      using r
    proof (rule ring_frame)
      fix x assume "x \<in> set (s # xs)"
      with ne have "x \<noteq> f" by auto
      then show "next ?h1 x = next h x \<and> prev ?h1 x = prev h x" by (simp add: list_ctor_def)
    qed
    have r2: "ring ?h1 f []" by (simp add: ring_def list_ctor_def)
    from take_all [OF i1 r1 r2 ne]
    show "\<exists>h'. list_move_ctor h f s = Inr h' \<and> inv S h'"
      by (simp add: list_move_ctor_def Let_def)
  qed
  have massign: "ring h s xs \<and> ring h t ys \<and> (s = t \<or> set (s # xs) \<inter> set (t # ys) = {}) \<longrightarrow>
       (\<exists>h'. list_move_assign h s t = Some (Inr h') \<and> inv S h')"
  proof
    assume a: "ring h s xs \<and> ring h t ys \<and> (s = t \<or> set (s # xs) \<inter> set (t # ys) = {})"
    then have r: "ring h s xs" and rt: "ring h t ys" by simp_all
    define h1 where "h1 = set_next (set_prev (cleared h xs) s (Some s)) s (Some s)"
    note c = ring_clear [OF r, folded h1_def]
    from inv_clear [OF i r] c(1) have i1: "inv S h1" by simp
    show "\<exists>h'. list_move_assign h s t = Some (Inr h') \<and> inv S h'"
    proof (cases "s = t")
      case True
      have "list_splice h1 (list_end s) s (list_begin h1 s) (list_end s) = Inr h1"
        using ring_sentinel [OF c(2)]
        by (simp add: list_splice_def list_end_def list_begin_def splice_def)
      with c(1) i1 True show ?thesis by (simp add: list_move_assign_def)
    next
      case False
      with a have disj: "set (s # xs) \<inter> set (t # ys) = {}" by simp
      have r1: "ring h1 t ys"
        using rt
      proof (rule ring_frame)
        fix x assume "x \<in> set (t # ys)"
        with disj have "x \<notin> set (s # xs)" by blast
        from c(4) [OF this] show "next h1 x = next h x \<and> prev h1 x = prev h x" by simp
      qed
      have ne: "s \<notin> set (t # ys)" using disj by auto
      from take_all [OF i1 r1 c(2) ne] c(1) show ?thesis
        by (simp add: list_move_assign_def)
    qed
  qed
  show ?thesis
    by (intro conjI) (fact unl tun clr ins spl ctor dtor lclr push pop lins ers lspl mctor massign)+
qed

lemma inv_heap_two: "inv (set [0, 1, 2, 3, 4, 5, 6, 7]) heap_two"
  by (simp add: inv_def node_ok_def linked_def unlinked_def heap_two_def heap_abc_def)

lemma node_invariant_preserved_example:
  "inv (set [0, 1, 2, 3, 4, 5, 6, 7]) heap_two \<and>
   ring heap_two 0 [1, 2, 3] \<and> ring heap_two 4 [5, 6] \<and>
   linked heap_two 1 \<and> linked heap_two 2 \<and> linked heap_two 4 \<and> linked heap_two 5 \<and>
   unlinked heap_two 7 \<and>
   (\<exists>h'. unlink heap_two 2 = Inr h' \<and> inv (set [0, 1, 2, 3, 4, 5, 6, 7]) h') \<and>
   (\<exists>h'. try_unlink heap_two 2 = Inr h' \<and> inv (set [0, 1, 2, 3, 4, 5, 6, 7]) h') \<and>
   (\<exists>h'. clear heap_two 0 = Some (Inr h') \<and> inv (set [0, 1, 2, 3, 4, 5, 6, 7]) h') \<and>
   (\<exists>h'. insert_base heap_two 2 7 = Inr h' \<and> inv (set [0, 1, 2, 3, 4, 5, 6, 7]) h') \<and>
   (\<exists>h'. splice heap_two 1 5 4 = Inr h' \<and> inv (set [0, 1, 2, 3, 4, 5, 6, 7]) h') \<and>
   inv (set [0, 1, 2, 3, 4, 5, 6, 7]) (list_ctor heap_two 7) \<and>
   (\<exists>h'. push_front heap_two 0 7 = Inr h' \<and> inv (set [0, 1, 2, 3, 4, 5, 6, 7]) h') \<and>
   (\<exists>h'. pop_back heap_two 0 = Inr h' \<and> inv (set [0, 1, 2, 3, 4, 5, 6, 7]) h') \<and>
   (\<exists>h' it. erase heap_two (Some 2) = Inr (h', it) \<and> inv (set [0, 1, 2, 3, 4, 5, 6, 7]) h') \<and>
   (\<exists>h'. list_splice heap_two (Some 1) 4 (Some 5) (Some 4) = Inr h' \<and>
      inv (set [0, 1, 2, 3, 4, 5, 6, 7]) h') \<and>
   (\<exists>h'. list_move_ctor heap_two 7 0 = Inr h' \<and> inv (set [0, 1, 2, 3, 4, 5, 6, 7]) h') \<and>
   (\<exists>h'. list_move_assign heap_two 0 4 = Some (Inr h') \<and> inv (set [0, 1, 2, 3, 4, 5, 6, 7]) h')"
proof -
  let ?S = "set [0, 1, 2, 3, 4, 5, 6, 7 :: nat]"
  note t = node_invariant_preserved [OF inv_heap_two, where n = 2 and s = 0 and xs = "[1, 2, 3]"
      and obj = 7 and pos = 1 and first = 5 and last' = 4 and f = 7 and t = 4 and ys = "[5, 6]"]
  have l: "linked heap_two 1" "linked heap_two 2" "linked heap_two 4" "linked heap_two 5"
    and u: "unlinked heap_two 7" and ok: "node_ok heap_two 2"
    and p: "prev heap_two 2 \<noteq> Some 2"
    by (simp_all add: node_ok_def linked_def unlinked_def heap_two_def heap_abc_def)
  have fresh: "\<forall>x\<in>?S. x \<noteq> 7 \<longrightarrow> prev heap_two x \<noteq> Some 7 \<and> next heap_two x \<noteq> Some 7"
    by (simp add: heap_two_def heap_abc_def)
  have m: "(5 :: nat) = 4 \<or> (1 :: nat) \<noteq> 5 \<and> (1 :: nat) \<noteq> 4" "[1, 2, 3 :: nat] \<noteq> []"
    "(2 :: nat) \<in> set [1, 2, 3]" "(2 :: nat) \<in> set (0 # [1, 2, 3])" "(1 :: nat) \<in> set (0 # [1, 2, 3])"
    "(5 :: nat) \<in> set (4 # [5, 6])" "(4 :: nat) \<in> set (4 # [5, 6])"
    "(7 :: nat) \<notin> set (0 # [1, 2, 3])"
    "(0 :: nat) = 4 \<or> set (0 # [1, 2, 3 :: nat]) \<inter> set (4 # [5, 6]) = {}"
    by simp_all
  show ?thesis
    using t inv_heap_two ring_heap_two l u ok p fresh m by blast
qed

subsection \<open>splice against erasing and inserting one by one\<close>

lemma ring_bounds_in:
  "last (s # ys) \<in> set (s # ys @ zs)" "hd (zs @ [s]) \<in> set (s # ys @ zs)"
proof -
  have "last (s # ys) \<in> set (s # ys)" by (rule last_in_set) simp
  then show "last (s # ys) \<in> set (s # ys @ zs)" by auto
  have "hd (zs @ [s]) \<in> set (zs @ [s])" by (rule hd_in_set) simp
  then show "hd (zs @ [s]) \<in> set (s # ys @ zs)" by auto
qed

lemma ring_erase:
  assumes r: "ring h s (as @ n # bs)"
  shows "\<exists>h'. erase h (Some n) = Inr (h', Some (hd (bs @ [s]))) \<and> ring h' s (as @ bs) \<and>
     (\<forall>x. x \<notin> set (s # as @ n # bs) \<longrightarrow> prev h' x = prev h x \<and> next h' x = next h x)"
proof -
  from ring_unlink_frame [OF r] obtain h' where h': "unlink h n = Inr h'" "ring h' s (as @ bs)"
    "\<forall>x. x \<notin> {n, last (s # as), hd (bs @ [s])} \<longrightarrow> prev h' x = prev h x \<and> next h' x = next h x"
    by blast
  have "last (s # as) \<in> set (s # as @ n # bs)" "hd (bs @ [s]) \<in> set (s # as @ n # bs)"
    using ring_bounds_in [where s = s and ys = as and zs = "n # bs"]
      ring_bounds_in [where s = s and ys = "as @ [n]" and zs = bs] by auto
  with h'(3) have "\<forall>x. x \<notin> set (s # as @ n # bs) \<longrightarrow> prev h' x = prev h x \<and> next h' x = next h x"
    by auto
  moreover have "erase h (Some n) = Inr (h', Some (hd (bs @ [s])))"
    using h'(1) ring_neighbours(2) [OF r] by (simp add: erase_def Let_def)
  ultimately show ?thesis using h'(2) by blast
qed

lemma ring_list_insert:
  assumes r: "ring h s (cs @ ds)" and e: "e \<notin> set (s # cs @ ds)"
  shows "\<exists>h'. list_insert h (Some (hd (ds @ [s]))) e = Inr (h', Some e) \<and>
     ring h' s (cs @ e # ds) \<and>
     (\<forall>x. x \<notin> set (e # s # cs @ ds) \<longrightarrow> prev h' x = prev h x \<and> next h' x = next h x)"
proof -
  define h' where "h' = set_prev (set_next (set_prev (set_next h e (Some (hd (ds @ [s])))) e
     (Some (last (s # cs)))) (last (s # cs)) (Some e)) (hd (ds @ [s])) (Some e)"
  note i = ring_insert [OF r e, folded h'_def]
  have "\<forall>x. x \<notin> {e, last (s # cs), hd (ds @ [s])} \<longrightarrow> prev h' x = prev h x \<and> next h' x = next h x"
    by (simp add: h'_def)
  with ring_bounds_in [where s = s and ys = cs and zs = ds]
  have "\<forall>x. x \<notin> set (e # s # cs @ ds) \<longrightarrow> prev h' x = prev h x \<and> next h' x = next h x"
    by auto
  moreover have "list_insert h (Some (hd (ds @ [s]))) e = Inr (h', Some e)"
    using i(1) by (simp add: list_insert_def to_base_def)
  ultimately show ?thesis using i(2) by blast
qed

lemma moves_other_list:
  "ring h fx (as @ rs @ bs) \<Longrightarrow> ring h fy (cs @ ds) \<Longrightarrow>
   set (fx # as @ rs @ bs) \<inter> set (fy # cs @ ds) = {} \<Longrightarrow>
   \<exists>h'. splice_by_moves h (Some (hd (ds @ [fy]))) rs = Inr h' \<and>
     ring h' fx (as @ bs) \<and> ring h' fy (cs @ rs @ ds)"
proof (induction rs arbitrary: h cs)
  case Nil
  then show ?case by simp
next
  case (Cons r rs)
  from Cons.prems(1) have rx: "ring h fx (as @ r # rs @ bs)" by simp
  from ring_erase [OF rx] obtain h1 it where h1: "erase h (Some r) = Inr (h1, it)"
    "ring h1 fx (as @ rs @ bs)"
    "\<forall>x. x \<notin> set (fx # as @ r # rs @ bs) \<longrightarrow> prev h1 x = prev h x \<and> next h1 x = next h x"
    by blast
  have ry1: "ring h1 fy (cs @ ds)"
    using Cons.prems(2)
  proof (rule ring_frame)
    fix x assume "x \<in> set (fy # cs @ ds)"
    with Cons.prems(3) have "x \<notin> set (fx # as @ r # rs @ bs)" by auto
    with h1(3) show "next h1 x = next h x \<and> prev h1 x = prev h x" by simp
  qed
  have r_new: "r \<notin> set (fy # cs @ ds)" using Cons.prems(3) by auto
  from ring_list_insert [OF ry1 r_new] obtain h2 it2
    where h2: "list_insert h1 (Some (hd (ds @ [fy]))) r = Inr (h2, it2)"
      "ring h2 fy ((cs @ [r]) @ ds)"
      "\<forall>x. x \<notin> set (r # fy # cs @ ds) \<longrightarrow> prev h2 x = prev h1 x \<and> next h2 x = next h1 x"
    by auto
  from rx have "distinct (fx # as @ r # rs @ bs)" by (simp add: ring_def)
  then have r_out: "r \<notin> set (fx # as @ rs @ bs)" by auto
  have rx2: "ring h2 fx (as @ rs @ bs)"
    using h1(2)
  proof (rule ring_frame)
    fix x assume x: "x \<in> set (fx # as @ rs @ bs)"
    with r_out have "x \<noteq> r" by auto
    moreover from x Cons.prems(3) have "x \<notin> set (fy # cs @ ds)" by auto
    ultimately have "x \<notin> set (r # fy # cs @ ds)" by simp
    with h2(3) show "next h2 x = next h1 x \<and> prev h2 x = prev h1 x" by simp
  qed
  have disj: "set (fx # as @ rs @ bs) \<inter> set (fy # (cs @ [r]) @ ds) = {}"
    using Cons.prems(3) r_out by auto
  from Cons.IH [OF rx2 h2(2) disj] obtain h' where
    "splice_by_moves h2 (Some (hd (ds @ [fy]))) rs = Inr h'"
    "ring h' fx (as @ bs)" "ring h' fy ((cs @ [r]) @ rs @ ds)"
    by blast
  with h1(1) h2(1) show ?case by simp
qed

lemma moves_same_after:
  "ring h f (as @ rs @ ms @ ds) \<Longrightarrow>
   \<exists>h'. splice_by_moves h (Some (hd (ds @ [f]))) rs = Inr h' \<and> ring h' f (as @ ms @ rs @ ds)"
proof (induction rs arbitrary: h ms)
  case Nil
  then show ?case by simp
next
  case (Cons r rs)
  from Cons.prems have r0: "ring h f (as @ r # (rs @ ms @ ds))" by simp
  then have "distinct (f # as @ r # rs @ ms @ ds)" by (simp add: ring_def)
  then have r_new: "r \<notin> set (f # (as @ rs @ ms) @ ds)" by auto
  from ring_erase [OF r0] obtain h1 it where h1: "erase h (Some r) = Inr (h1, it)"
    "ring h1 f ((as @ rs @ ms) @ ds)" by auto
  from ring_list_insert [OF h1(2) r_new] obtain h2 it2
    where h2: "list_insert h1 (Some (hd (ds @ [f]))) r = Inr (h2, it2)"
      "ring h2 f (as @ rs @ (ms @ [r]) @ ds)" by auto
  from Cons.IH [OF h2(2)] obtain h' where
    "splice_by_moves h2 (Some (hd (ds @ [f]))) rs = Inr h'" "ring h' f (as @ (ms @ [r]) @ rs @ ds)"
    by blast
  with h1(1) h2(1) show ?case by simp
qed

lemma moves_same_before:
  "ring h f (cs @ ms @ rs @ bs) \<Longrightarrow> ms \<noteq> [] \<Longrightarrow>
   \<exists>h'. splice_by_moves h (Some (hd ms)) rs = Inr h' \<and> ring h' f (cs @ rs @ ms @ bs)"
proof (induction rs arbitrary: h cs)
  case Nil
  then show ?case by simp
next
  case (Cons r rs)
  from Cons.prems have r0: "ring h f ((cs @ ms) @ r # (rs @ bs))" by simp
  then have "distinct (f # cs @ ms @ r # rs @ bs)" by (simp add: ring_def)
  then have r_new: "r \<notin> set (f # cs @ (ms @ rs @ bs))" by auto
  from ring_erase [OF r0] obtain h1 it where h1: "erase h (Some r) = Inr (h1, it)"
    "ring h1 f (cs @ (ms @ rs @ bs))" by auto
  have pos: "hd ((ms @ rs @ bs) @ [f]) = hd ms" using Cons.prems(2) by simp
  from ring_list_insert [OF h1(2) r_new] obtain h2 it2
    where h2: "list_insert h1 (Some (hd ms)) r = Inr (h2, it2)"
      "ring h2 f ((cs @ [r]) @ ms @ rs @ bs)" unfolding pos by auto
  from Cons.IH [OF h2(2) Cons.prems(2)] obtain h' where
    "splice_by_moves h2 (Some (hd ms)) rs = Inr h'" "ring h' f ((cs @ [r]) @ rs @ ms @ bs)"
    by blast
  with h1(1) h2(1) show ?case by simp
qed

lemma ring_block_swap:
  assumes r: "ring h f (u @ X @ Y @ v)" and neX: "X \<noteq> []" and neY: "Y \<noteq> []"
    and nx: "\<And>x. next h' x =
        (if x = last (f # u) then Some (hd Y) else if x = last X then Some (hd (v @ [f]))
         else if x = last Y then Some (hd X) else next h x)"
    and pv: "\<And>x. prev h' x =
        (if x = hd Y then Some (last (f # u)) else if x = hd (v @ [f]) then Some (last X)
         else if x = hd X then Some (last Y) else prev h x)"
  shows "ring h' f (u @ Y @ X @ v)"
proof -
  define P LX LY where "P = last (f # u)" and "LX = last X" and "LY = last Y"
  define Q HX HY where "Q = hd (v @ [f])" and "HX = hd X" and "HY = hd Y"
  define U SX SY where "U = set (f # u @ v)" and "SX = set X" and "SY = set Y"
  note defs = P_def LX_def LY_def Q_def HX_def HY_def
  have nx': "next h' x = (if x = P then Some HY else if x = LX then Some Q
         else if x = LY then Some HX else next h x)" for x
    unfolding defs by (rule nx)
  have pv': "prev h' x = (if x = HY then Some P else if x = Q then Some LX
         else if x = HX then Some LY else prev h x)" for x
    unfolding defs by (rule pv)
  have d: "distinct (f # u @ X @ Y @ v)" using r by (simp add: ring_def)
  have d': "distinct (f # u @ v)" and dX: "distinct X" and dY: "distinct Y" using d by auto
  have disj: "SX \<inter> U = {}" "SY \<inter> U = {}" "SX \<inter> SY = {}"
    unfolding SX_def SY_def U_def using d by auto
  have P_in: "P \<in> U" and Q_in: "Q \<in> U"
    unfolding P_def Q_def U_def
    using ring_bounds_in [where s = f and ys = u and zs = v] by simp_all
  have X_in: "LX \<in> SX" "HX \<in> SX" unfolding LX_def HX_def SX_def using neX by simp_all
  have Y_in: "LY \<in> SY" "HY \<in> SY" unfolding LY_def HY_def SY_def using neY by simp_all
  have ne: "P \<noteq> LX" "P \<noteq> LY" "LX \<noteq> LY" "HY \<noteq> Q" "HY \<noteq> HX" "Q \<noteq> HX"
    using P_in Q_in X_in Y_in disj by blast+
  have l0: "dlinks h ((f # u) @ X @ Y @ (v @ [f]))" using r by (simp add: ring_def)
  have ne3: "X @ Y @ v @ [f] \<noteq> []" "Y @ v @ [f] \<noteq> []" "v @ [f] \<noteq> []" "f # u \<noteq> []" by simp_all
  from l0 have l1: "dlinks h (f # u)" and l2: "dlinks h (X @ Y @ (v @ [f]))"
    by (simp_all only: dlinks_append [of h "f # u"])
  from l2 have l3: "dlinks h X" and l4: "dlinks h (Y @ (v @ [f]))"
    by (simp_all only: dlinks_append [of h X])
  from l4 have l5: "dlinks h Y" and l6: "dlinks h (v @ [f])"
    by (simp_all only: dlinks_append [of h Y])
  have f1: "dlinks h' (f # u)" "dlinks h' (v @ [f])"
  proof -
    have a: "x = last (f # u) \<or> x \<notin> set (f # u @ v)" if "next h' x \<noteq> next h x" for x
      using that X_in Y_in disj unfolding P_def [symmetric] U_def [symmetric]
      by (auto simp: nx' split: if_splits)
    have b: "x = hd (v @ [f]) \<or> x \<notin> set (f # u @ v)" if "prev h' x \<noteq> prev h x" for x
      using that X_in Y_in disj unfolding Q_def [symmetric] U_def [symmetric]
      by (auto simp: pv' split: if_splits)
    show "dlinks h' (f # u)" "dlinks h' (v @ [f])"
      using parts_frame [OF d' a b] l1 l6 by blast+
  qed
  have inner: "dlinks h' Z" if lz: "dlinks h Z" and dz: "distinct Z" and nz: "Z \<noteq> []"
    and o: "\<And>x. x \<in> set Z \<Longrightarrow> x \<noteq> P \<and> x \<noteq> Q"
    and la: "\<And>x. x \<in> set Z \<Longrightarrow> x \<noteq> last Z \<Longrightarrow> x \<noteq> LX \<and> x \<noteq> LY"
    and hz: "\<And>x. x \<in> set Z \<Longrightarrow> x \<noteq> hd Z \<Longrightarrow> x \<noteq> HX \<and> x \<noteq> HY" for Z
    using lz
  proof (rule dlinks_frame)
    fix x assume x: "x \<in> set (butlast Z)"
    then have xz: "x \<in> set Z" by (rule in_set_butlastD)
    moreover from x last_notin_butlast [OF dz nz] have "x \<noteq> last Z" by blast
    ultimately show "next h' x = next h x" using o [OF xz] la [OF xz] by (simp add: nx')
  next
    fix x assume x: "x \<in> set (tl Z)"
    then have xz: "x \<in> set Z" by (rule list.set_sel(2) [rotated]) (rule nz)
    moreover from x hd_notin_tl [OF dz nz] have "x \<noteq> hd Z" by blast
    ultimately show "prev h' x = prev h x" using o [OF xz] hz [OF xz] by (simp add: pv')
  qed
  have f2: "dlinks h' X"
    using l3 dX neX
  proof (rule inner)
    fix x assume "x \<in> set X"
    then have x: "x \<in> SX" by (simp add: SX_def)
    with P_in Q_in disj show "x \<noteq> P \<and> x \<noteq> Q" by blast
    from x Y_in disj show "x \<noteq> last X \<Longrightarrow> x \<noteq> LX \<and> x \<noteq> LY" unfolding LX_def by blast
    from x Y_in disj show "x \<noteq> hd X \<Longrightarrow> x \<noteq> HX \<and> x \<noteq> HY" unfolding HX_def by blast
  qed
  have f3: "dlinks h' Y"
    using l5 dY neY
  proof (rule inner)
    fix x assume "x \<in> set Y"
    then have x: "x \<in> SY" by (simp add: SY_def)
    with P_in Q_in disj show "x \<noteq> P \<and> x \<noteq> Q" by blast
    from x X_in disj show "x \<noteq> last Y \<Longrightarrow> x \<noteq> LX \<and> x \<noteq> LY" unfolding LY_def by blast
    from x X_in disj show "x \<noteq> hd Y \<Longrightarrow> x \<noteq> HX \<and> x \<noteq> HY" unfolding HY_def by blast
  qed
  have lk: "next h' P = Some HY" "prev h' HY = Some P" "next h' LY = Some HX"
    "prev h' HX = Some LY" "next h' LX = Some Q" "prev h' Q = Some LX"
    using ne by (simp_all add: nx' pv')
  have hds: "hd (Y @ X @ v @ [f]) = HY" "hd (X @ v @ [f]) = HX"
    using neX neY by (simp_all add: HY_def HX_def)
  have "dlinks h' (X @ (v @ [f]))"
    using f2 f1(2) lk neX unfolding defs by (simp only: dlinks_append [of h' X] simp_thms)
  then have "dlinks h' (Y @ X @ (v @ [f]))"
    using f3 lk neY hds unfolding defs
    by (simp only: dlinks_append [of h' Y] append_assoc simp_thms)
  then have "dlinks h' ((f # u) @ Y @ X @ (v @ [f]))"
    using f1(1) lk hds unfolding defs
    by (simp only: dlinks_append [of h' "f # u"] append_assoc simp_thms)
  moreover have "distinct (f # u @ Y @ X @ v)" using d by auto
  ultimately show ?thesis by (simp add: ring_def)
qed

lemma disjoint_ne:
  "x \<in> A \<Longrightarrow> y \<in> B \<Longrightarrow> A \<inter> B = {} \<Longrightarrow> x \<noteq> y"
  "x \<in> A \<Longrightarrow> y \<in> B \<Longrightarrow> B \<inter> A = {} \<Longrightarrow> x \<noteq> y"
  by blast+

lemma ring_blocks:
  assumes r: "ring h f (u @ X @ Y @ v)" and neX: "X \<noteq> []" and neY: "Y \<noteq> []"
  shows "next h (last (f # u)) = Some (hd X)" "prev h (hd X) = Some (last (f # u))"
    "next h (last X) = Some (hd Y)" "prev h (hd Y) = Some (last X)"
    "next h (last Y) = Some (hd (v @ [f]))" "prev h (hd (v @ [f])) = Some (last Y)"
    "last (f # u) \<noteq> last X" "last (f # u) \<noteq> last Y" "last X \<noteq> last Y"
    "hd X \<noteq> hd Y" "hd X \<noteq> hd (v @ [f])" "hd Y \<noteq> hd (v @ [f])"
proof -
  have l0: "dlinks h ((f # u) @ X @ Y @ (v @ [f]))" using r by (simp add: ring_def)
  have d: "distinct (f # u @ X @ Y @ v)" using r by (simp add: ring_def)
  have hds: "hd (X @ Y @ v @ [f]) = hd X" "hd (Y @ v @ [f]) = hd Y"
    using neX neY by simp_all
  have ne3: "X @ Y @ v @ [f] \<noteq> []" "Y @ v @ [f] \<noteq> []" "v @ [f] \<noteq> []" "f # u \<noteq> []" by simp_all
  from l0 ne3 hds show "next h (last (f # u)) = Some (hd X)" "prev h (hd X) = Some (last (f # u))"
    by (simp_all only: dlinks_append [of h "f # u"] append_assoc simp_thms)
  from l0 have l2: "dlinks h (X @ Y @ (v @ [f]))"
    by (simp only: dlinks_append [of h "f # u"])
  from l2 ne3 neX hds show "next h (last X) = Some (hd Y)" "prev h (hd Y) = Some (last X)"
    by (simp_all only: dlinks_append [of h X] append_assoc simp_thms)
  from l2 have l4: "dlinks h (Y @ (v @ [f]))"
    by (simp only: dlinks_append [of h X])
  from l4 ne3 neY show "next h (last Y) = Some (hd (v @ [f]))" "prev h (hd (v @ [f])) = Some (last Y)"
    by (simp_all only: dlinks_append [of h Y] simp_thms)
  define U SX SY where "U = set (f # u @ v)" and "SX = set X" and "SY = set Y"
  have P_in: "last (f # u) \<in> U" and Q_in: "hd (v @ [f]) \<in> U"
    unfolding U_def using ring_bounds_in [where s = f and ys = u and zs = v] by simp_all
  have X_in: "last X \<in> SX" "hd X \<in> SX" unfolding SX_def using neX by simp_all
  have Y_in: "last Y \<in> SY" "hd Y \<in> SY" unfolding SY_def using neY by simp_all
  have disj: "SX \<inter> U = {}" "SY \<inter> U = {}" "SX \<inter> SY = {}"
    unfolding SX_def SY_def U_def using d by auto
  show "last (f # u) \<noteq> last X" using P_in X_in(1) disj(1) by (rule disjoint_ne(2))
  show "last (f # u) \<noteq> last Y" using P_in Y_in(1) disj(2) by (rule disjoint_ne(2))
  show "last X \<noteq> last Y" using X_in(1) Y_in(1) disj(3) by (rule disjoint_ne(1))
  show "hd X \<noteq> hd Y" using X_in(2) Y_in(2) disj(3) by (rule disjoint_ne(1))
  show "hd X \<noteq> hd (v @ [f])" using X_in(2) Q_in disj(1) by (rule disjoint_ne(1))
  show "hd Y \<noteq> hd (v @ [f])" using Y_in(2) Q_in disj(2) by (rule disjoint_ne(1))
qed

lemma ring_splice_after:
  assumes r: "ring h f (as @ rs @ ms @ ds)" and ne: "rs \<noteq> []" "ms \<noteq> []"
  shows "\<exists>h'. splice h (hd (ds @ [f])) (hd rs) (hd ms) = Inr h' \<and> ring h' f (as @ ms @ rs @ ds)"
proof -
  define a b c where "a = last ms" and "b = last (f # as)" and "c = last rs"
  define pos first lastn where "pos = hd (ds @ [f])" and "first = hd rs" and "lastn = hd ms"
  note defs = a_def b_def c_def pos_def first_def lastn_def
  note B = ring_blocks [OF r ne, folded defs]
  define h' where "h' = h\<lparr>next := (next h)(a := Some first, b := Some lastn, c := Some pos),
            prev := (prev h)(pos := Some c, lastn := Some b, first := Some a)\<rparr>"
  have "splice h pos first lastn = Inr h'"
    unfolding h'_def
    by (rule splice_eq [OF B(10) B(11) [symmetric] B(12) [symmetric] B(6) B(2) B(4)
          B(8) [symmetric] B(9) [symmetric] B(7) B(5) B(1) B(3)])
  moreover have "ring h' f (as @ ms @ rs @ ds)"
    using r ne
  proof (rule ring_block_swap)
    fix x
    show "next h' x =
        (if x = last (f # as) then Some (hd ms) else if x = last rs then Some (hd (ds @ [f]))
         else if x = last ms then Some (hd rs) else next h x)"
      unfolding defs [symmetric] using B(7-9) B(7-9) [symmetric] by (simp add: h'_def)
    show "prev h' x =
        (if x = hd ms then Some (last (f # as)) else if x = hd (ds @ [f]) then Some (last rs)
         else if x = hd rs then Some (last ms) else prev h x)"
      unfolding defs [symmetric] using B(10-12) B(10-12) [symmetric] by (simp add: h'_def)
  qed
  ultimately show ?thesis unfolding defs by blast
qed

lemma ring_splice_before:
  assumes r: "ring h f (cs @ ms @ rs @ bs)" and ne: "ms \<noteq> []" "rs \<noteq> []"
  shows "\<exists>h'. splice h (hd ms) (hd rs) (hd (bs @ [f])) = Inr h' \<and> ring h' f (cs @ rs @ ms @ bs)"
proof -
  define a b c where "a = last (f # cs)" and "b = last ms" and "c = last rs"
  define pos first lastn where "pos = hd ms" and "first = hd rs" and "lastn = hd (bs @ [f])"
  note defs = a_def b_def c_def pos_def first_def lastn_def
  note B = ring_blocks [OF r ne, folded defs]
  define h' where "h' = h\<lparr>next := (next h)(a := Some first, b := Some lastn, c := Some pos),
            prev := (prev h)(pos := Some c, lastn := Some b, first := Some a)\<rparr>"
  have "splice h pos first lastn = Inr h'"
    unfolding h'_def
    by (rule splice_eq [OF B(12) B(10) B(11) B(2) B(4) B(6) B(7) B(8) B(9) B(1) B(3) B(5)])
  moreover have "ring h' f (cs @ rs @ ms @ bs)"
    using r ne
  proof (rule ring_block_swap)
    fix x
    show "next h' x =
        (if x = last (f # cs) then Some (hd rs) else if x = last ms then Some (hd (bs @ [f]))
         else if x = last rs then Some (hd ms) else next h x)"
      unfolding defs [symmetric] using B(7-9) B(7-9) [symmetric] by (simp add: h'_def)
    show "prev h' x =
        (if x = hd rs then Some (last (f # cs)) else if x = hd (bs @ [f]) then Some (last ms)
         else if x = hd ms then Some (last rs) else prev h x)"
      unfolding defs [symmetric] using B(10-12) B(10-12) [symmetric] by (simp add: h'_def)
  qed
  ultimately show ?thesis unfolding defs by blast
qed

text \<open>
  Where \<^verbatim>\<open>splice\<close> agrees with the reference. For a range \<open>rs\<close> of one list and a position
  in another list, and within one list for a position after \<open>last\<close> or before \<open>first\<close>
  (\<open>ms\<close>, not empty, lies between the range and the position), \<^verbatim>\<open>list::splice\<close> and the
  reference both complete and leave the same element sequences. An empty range
  (\<open>first = last\<close>) changes nothing.
\<close>

lemma splice_refines_moves:
  "(ring h fx (as @ rs @ bs) \<and> ring h fy (cs @ ds) \<and>
      set (fx # as @ rs @ bs) \<inter> set (fy # cs @ ds) = {} \<longrightarrow>
      (\<exists>h1 h2.
         list_splice h (Some (hd (ds @ [fy]))) fx (Some (hd (rs @ bs @ [fx]))) (Some (hd (bs @ [fx])))
           = Inr h1 \<and>
         splice_by_moves h (Some (hd (ds @ [fy]))) rs = Inr h2 \<and>
         ring h1 fx (as @ bs) \<and> ring h1 fy (cs @ rs @ ds) \<and>
         ring h2 fx (as @ bs) \<and> ring h2 fy (cs @ rs @ ds))) \<and>
   (ring h f (as @ rs @ ms @ ds) \<and> ms \<noteq> [] \<longrightarrow>
      (\<exists>h1 h2.
         list_splice h (Some (hd (ds @ [f]))) f (Some (hd (rs @ ms))) (Some (hd ms)) = Inr h1 \<and>
         splice_by_moves h (Some (hd (ds @ [f]))) rs = Inr h2 \<and>
         ring h1 f (as @ ms @ rs @ ds) \<and> ring h2 f (as @ ms @ rs @ ds))) \<and>
   (ring h f (cs @ ms @ rs @ bs) \<and> ms \<noteq> [] \<longrightarrow>
      (\<exists>h1 h2.
         list_splice h (Some (hd ms)) f (Some (hd (rs @ bs @ [f]))) (Some (hd (bs @ [f]))) = Inr h1 \<and>
         splice_by_moves h (Some (hd ms)) rs = Inr h2 \<and>
         ring h1 f (cs @ rs @ ms @ bs) \<and> ring h2 f (cs @ rs @ ms @ bs)))"
proof (intro conjI impI)
  assume a: "ring h fx (as @ rs @ bs) \<and> ring h fy (cs @ ds) \<and>
      set (fx # as @ rs @ bs) \<inter> set (fy # cs @ ds) = {}"
  then have rx: "ring h fx (as @ rs @ bs)" and ry: "ring h fy (cs @ ds)"
    and disj: "set (fx # as @ rs @ bs) \<inter> set (fy # cs @ ds) = {}" by simp_all
  from moves_other_list [OF rx ry disj] obtain h2 where h2:
    "splice_by_moves h (Some (hd (ds @ [fy]))) rs = Inr h2"
    "ring h2 fx (as @ bs)" "ring h2 fy (cs @ rs @ ds)" by blast
  have "\<exists>h1. splice h (hd (ds @ [fy])) (hd (rs @ bs @ [fx])) (hd (bs @ [fx])) = Inr h1 \<and>
      ring h1 fx (as @ bs) \<and> ring h1 fy (cs @ rs @ ds)"
  proof (cases "rs = []")
    case True
    with rx ry show ?thesis by (simp add: splice_def)
  next
    case False
    with ring_splice_other [OF rx ry disj False] show ?thesis by simp
  qed
  with h2 show "\<exists>h1 h2.
         list_splice h (Some (hd (ds @ [fy]))) fx (Some (hd (rs @ bs @ [fx]))) (Some (hd (bs @ [fx])))
           = Inr h1 \<and>
         splice_by_moves h (Some (hd (ds @ [fy]))) rs = Inr h2 \<and>
         ring h1 fx (as @ bs) \<and> ring h1 fy (cs @ rs @ ds) \<and>
         ring h2 fx (as @ bs) \<and> ring h2 fy (cs @ rs @ ds)"
    unfolding list_splice_def deref_simps by blast
next
  assume a: "ring h f (as @ rs @ ms @ ds) \<and> ms \<noteq> []"
  then have r: "ring h f (as @ rs @ ms @ ds)" and ne: "ms \<noteq> []" by simp_all
  from moves_same_after [OF r] obtain h2 where h2:
    "splice_by_moves h (Some (hd (ds @ [f]))) rs = Inr h2" "ring h2 f (as @ ms @ rs @ ds)"
    by blast
  have "\<exists>h1. splice h (hd (ds @ [f])) (hd (rs @ ms)) (hd ms) = Inr h1 \<and>
      ring h1 f (as @ ms @ rs @ ds)"
  proof (cases "rs = []")
    case True
    with r show ?thesis by (simp add: splice_def)
  next
    case False
    with ring_splice_after [OF r False ne] show ?thesis by simp
  qed
  with h2 show "\<exists>h1 h2.
         list_splice h (Some (hd (ds @ [f]))) f (Some (hd (rs @ ms))) (Some (hd ms)) = Inr h1 \<and>
         splice_by_moves h (Some (hd (ds @ [f]))) rs = Inr h2 \<and>
         ring h1 f (as @ ms @ rs @ ds) \<and> ring h2 f (as @ ms @ rs @ ds)"
    unfolding list_splice_def deref_simps by blast
next
  assume a: "ring h f (cs @ ms @ rs @ bs) \<and> ms \<noteq> []"
  then have r: "ring h f (cs @ ms @ rs @ bs)" and ne: "ms \<noteq> []" by simp_all
  from moves_same_before [OF r ne] obtain h2 where h2:
    "splice_by_moves h (Some (hd ms)) rs = Inr h2" "ring h2 f (cs @ rs @ ms @ bs)"
    by blast
  have "\<exists>h1. splice h (hd ms) (hd (rs @ bs @ [f])) (hd (bs @ [f])) = Inr h1 \<and>
      ring h1 f (cs @ rs @ ms @ bs)"
  proof (cases "rs = []")
    case True
    with r show ?thesis by (simp add: splice_def)
  next
    case False
    with ring_splice_before [OF r ne False] show ?thesis by simp
  qed
  with h2 show "\<exists>h1 h2.
         list_splice h (Some (hd ms)) f (Some (hd (rs @ bs @ [f]))) (Some (hd (bs @ [f]))) = Inr h1 \<and>
         splice_by_moves h (Some (hd ms)) rs = Inr h2 \<and>
         ring h1 f (cs @ rs @ ms @ bs) \<and> ring h2 f (cs @ rs @ ms @ bs)"
    unfolding list_splice_def deref_simps by blast
qed

lemma splice_abc_at_last: "list_splice heap_abc (Some 3) 0 (Some 1) (Some 3) = Inr heap_bad"
  by (simp add: list_splice_def splice_def triswap_def Let_def heap_abc_def heap_bad_def fun_eq_iff)

lemma moves_abc_at_last: "splice_by_moves heap_abc (Some 3) [1, 2] = Inr heap_abc"
  by (simp add: erase_def list_insert_def unlink_def insert_base_def to_base_def Let_def
      heap_abc_def set_prev_def set_next_def fun_eq_iff)

text \<open>
  C1. \<^verbatim>\<open>splice\<close> against the reference, at the position \<open>pos = last\<close> of the same list.
  On the list A, B, C (nodes 1, 2, 3, sentinel 0) the range [A, C) is spliced before C.
  The reference (erase A, insert A before C, erase B, insert B before C) returns the store
  it started from. \<^verbatim>\<open>splice\<close> leaves every \<^verbatim>\<open>next\<close> pointer as it was but exchanges
  \<^verbatim>\<open>C.prev\<close> and \<^verbatim>\<open>A.prev\<close>: the sentinel's ring is broken, and walking back from
  \<^verbatim>\<open>end()\<close> meets C and then \<^verbatim>\<open>end()\<close> again, where the list held C, B, A; erasing C
  afterwards leaves a list that reports itself empty.
\<close>

theorem splice_before_last_corrupts:
  "ring heap_abc 0 [1, 2, 3] \<and>
   list_splice heap_abc (Some 3) 0 (Some 1) (Some 3) = Inr heap_bad \<and>
   splice_by_moves heap_abc (Some 3) [1, 2] = Inr heap_abc \<and>
   heap_bad \<noteq> heap_abc \<and> \<not> ring heap_bad 0 [1, 2, 3] \<and>
   next heap_bad = next heap_abc \<and>
   prev heap_bad 3 = Some 0 \<and> prev heap_bad 1 = Some 2 \<and>
   iter_dec heap_abc (list_end 0) = Inr (Some 3) \<and> iter_dec heap_abc (Some 3) = Inr (Some 2) \<and>
   iter_dec heap_bad (list_end 0) = Inr (Some 3) \<and> iter_dec heap_bad (Some 3) = Inr (list_end 0) \<and>
   (\<exists>h' it. erase heap_bad (Some 3) = Inr (h', it) \<and> list_empty h' 0)"
proof -
  have "prev heap_bad 3 \<noteq> prev heap_abc 3" by (simp add: heap_bad_def heap_abc_def)
  then have "heap_bad \<noteq> heap_abc" by auto
  moreover have "\<not> ring heap_bad 0 [1, 2, 3]" by (simp add: ring_def heap_bad_def)
  moreover have "next heap_bad = next heap_abc" by (simp add: heap_bad_def heap_abc_def)
  moreover have "prev heap_bad 3 = Some 0" "prev heap_bad 1 = Some 2"
    "iter_dec heap_abc (list_end 0) = Inr (Some 3)" "iter_dec heap_abc (Some 3) = Inr (Some 2)"
    "iter_dec heap_bad (list_end 0) = Inr (Some 3)" "iter_dec heap_bad (Some 3) = Inr (list_end 0)"
    by (simp_all add: heap_bad_def heap_abc_def iter_dec_def list_end_def)
  moreover have "\<exists>h' it. erase heap_bad (Some 3) = Inr (h', it) \<and> list_empty h' 0"
    by (simp add: erase_def unlink_def Let_def heap_bad_def list_empty_def)
  ultimately show ?thesis
    using ring_heap_abc splice_abc_at_last moves_abc_at_last by blast
qed

text \<open>
  At \<open>pos = first\<close> the two \<^verbatim>\<open>next\<close> fields alias instead: the range drops out of the forward
  traversal, which is left with C alone. The reference is not defined there (it would
  insert before a node it has just erased).
\<close>

lemma splice_at_first_corrupts:
  "\<exists>h'. list_splice heap_abc (Some 1) 0 (Some 1) (Some 3) = Inr h' \<and>
     prev h' = prev heap_abc \<and> next h' 0 = Some 3 \<and> next h' 3 = Some 0 \<and> next h' 2 = Some 1"
  by (simp add: list_splice_def splice_def triswap_def Let_def heap_abc_def fun_eq_iff)

lemma moves_at_first_undefined:
  "splice_by_moves heap_abc (Some 1) [1, 2] = Inl NullDereference"
  by (simp add: erase_def list_insert_def unlink_def insert_base_def to_base_def Let_def
      heap_abc_def)


subsection \<open>The node invariant across splice at the position last\<close>

lemma node_ok_heap_abc: "node_ok heap_abc n"
  by (simp add: node_ok_def linked_def unlinked_def heap_abc_def)

lemma inv_heap_abc: "inv UNIV heap_abc"
  using node_ok_heap_abc by (simp add: inv_def)

lemma not_inv_heap_bad: "\<not> inv UNIV heap_bad"
proof -
  have "\<not> node_ok heap_bad 1"
    by (simp add: node_ok_def linked_def unlinked_def heap_bad_def)
  then show ?thesis by (auto simp: inv_def)
qed

text \<open>
  C2. The node invariant (every node unlinked, or linked with \<open>n.prev.next = n\<close> and
  \<open>n.next.prev = n\<close>) is not kept by every operation called within its contract. In the
  store of the list A, B, C (nodes 1, 2, 3, sentinel 0) every node satisfies it. The call
  \<^verbatim>\<open>l.splice(pos, l, first, last)\<close> with \<open>pos = last\<close> at C and \<open>first\<close> at A completes, and
  afterwards none of the four nodes satisfies it: all pointers are non-null, but
  \<open>A.prev.next\<close> is C and \<open>C.prev.next\<close> is A. No node has one null pointer beside a
  non-null one.
\<close>

theorem splice_before_last_breaks_invariant:
  "(\<forall>n. node_ok heap_abc n) \<and> ring heap_abc 0 [1, 2, 3] \<and>
   list_splice heap_abc (Some 3) 0 (Some 1) (Some 3) = Inr heap_bad \<and>
   \<not> node_ok heap_bad 0 \<and> \<not> node_ok heap_bad 1 \<and> \<not> node_ok heap_bad 2 \<and> \<not> node_ok heap_bad 3 \<and>
   prev heap_bad 1 = Some 2 \<and> next heap_bad 2 = Some 3 \<and>
   prev heap_bad 3 = Some 0 \<and> next heap_bad 0 = Some 1 \<and>
   (\<forall>n. (prev heap_bad n = None) = (next heap_bad n = None))"
proof -
  have "\<forall>n. node_ok heap_abc n" using node_ok_heap_abc by blast
  moreover have "\<not> node_ok heap_bad 0" "\<not> node_ok heap_bad 1" "\<not> node_ok heap_bad 2"
    "\<not> node_ok heap_bad 3"
    by (simp_all add: node_ok_def linked_def unlinked_def heap_bad_def)
  moreover have "prev heap_bad 1 = Some 2" "next heap_bad 2 = Some 3"
    "prev heap_bad 3 = Some 0" "next heap_bad 0 = Some 1"
    by (simp_all add: heap_bad_def)
  moreover have "\<forall>n. (prev heap_bad n = None) = (next heap_bad n = None)"
    by (simp add: heap_bad_def)
  ultimately show ?thesis using ring_heap_abc splice_abc_at_last by blast
qed

end
